theory Spec2Isabelle
  imports
    Main
    "HOL-Library.Multiset"
    "HOL-Library.Char_ord"
    "HOL-Library.List_Lexorder"
begin

section \<open>Data model\<close>

text \<open>
  A parsed line is a Go \<^verbatim>\<open>[]string\<close>: a list of byte strings.  Go compares strings
  byte by byte, a proper prefix being smaller; this is the lexicographic order of
  \<^typ>\<open>char list\<close> over the byte order of \<^typ>\<open>char\<close>.
\<close>

type_synonym row = "string list"

text \<open>The ways the Go program stops without a result: three run-time panics, the
  \<^verbatim>\<open>log.Fatal\<close> of \<^verbatim>\<open>readContent\<close> and the one after a failed \<^verbatim>\<open>os.Open\<close>.\<close>

datatype error =
    IndexOutOfRange
  | SliceBoundsOutOfRange
  | NilPointerDereference
  | ColumnMismatch
  | OpenFailed

text \<open>\<^verbatim>\<open>data[field]\<close> with a Go \<^verbatim>\<open>int\<close> index: a panic outside \<open>0 \<le> field < len(data)\<close>.\<close>

definition in_range :: "row \<Rightarrow> int \<Rightarrow> bool" where
  "in_range r i = (0 \<le> i \<and> i < int (length r))"

definition index :: "row \<Rightarrow> int \<Rightarrow> error + string" where
  "index r i = (if in_range r i then Inr (r ! nat i) else Inl IndexOutOfRange)"

text \<open>\<^verbatim>\<open>*Node\<close>: either the nil pointer or a node with its row and two children.  Every
  node is referenced from exactly one place, so the in-place updates of the Go code are
  modelled by returning the updated structure.\<close>

datatype Node = Null | Node (data: row) (left: Node) (right: Node)

record Tree =
  root :: Node

section \<open>Tree sort\<close>

text \<open>\<^verbatim>\<open>func (n *Node) insert(data []string, field int)\<close>.  The comparison reads
  \<^verbatim>\<open>data[field]\<close> first and \<^verbatim>\<open>n.data[field]\<close> second; either read may panic.\<close>

fun Node_insert :: "Node \<Rightarrow> row \<Rightarrow> int \<Rightarrow> error + Node" where
  "Node_insert Null d field = Inr Null"
| "Node_insert (Node nd l r) d field =
     (case index d field of
        Inl e \<Rightarrow> Inl e
      | Inr a \<Rightarrow>
         (case index nd field of
            Inl e \<Rightarrow> Inl e
          | Inr b \<Rightarrow>
             if a \<le> b then
               (if l = Null then Inr (Node nd (Node d Null Null) r)
                else (case Node_insert l d field of
                        Inl e \<Rightarrow> Inl e
                      | Inr l' \<Rightarrow> Inr (Node nd l' r)))
             else
               (if r = Null then Inr (Node nd l (Node d Null Null))
                else (case Node_insert r d field of
                        Inl e \<Rightarrow> Inl e
                      | Inr r' \<Rightarrow> Inr (Node nd l r')))))"

text \<open>\<^verbatim>\<open>func (t *Tree) insert(data []string, field int) *Tree\<close>.\<close>

definition Tree_insert :: "Tree \<Rightarrow> row \<Rightarrow> int \<Rightarrow> error + Tree" where
  "Tree_insert t d field =
     (if root t = Null then Inr (t\<lparr>root := Node d Null Null\<rparr>)
      else (case Node_insert (root t) d field of
              Inl e \<Rightarrow> Inl e
            | Inr n \<Rightarrow> Inr (t\<lparr>root := n\<rparr>)))"

text \<open>\<^verbatim>\<open>func (node *Node) rewriteTree()\<close> appends to the global \<^verbatim>\<open>sorted\<close>, which the model
  takes and returns (as \<open>sorted'\<close>, the name \<open>sorted\<close> being HOL's).  The method reads
  \<^verbatim>\<open>node.left\<close> without a nil check, so a nil receiver panics.\<close>

fun rewriteTree :: "Node \<Rightarrow> row list \<Rightarrow> error + row list" where
  "rewriteTree Null sorted' = Inl NilPointerDereference"
| "rewriteTree (Node d l r) sorted' =
     (case (if l \<noteq> Null then rewriteTree l sorted' else Inr sorted') of
        Inl e \<Rightarrow> Inl e
      | Inr s \<Rightarrow>
         (if r \<noteq> Null then rewriteTree r (s @ [d]) else Inr (s @ [d])))"

text \<open>The loop \<^verbatim>\<open>for i := h; i < len(buff); i++ { t.insert(buff[i], field) }\<close>, over the
  rows \<^verbatim>\<open>buff[h], ..., buff[len(buff)-1]\<close>.\<close>

fun insert_rows :: "Tree \<Rightarrow> row list \<Rightarrow> int \<Rightarrow> error + Tree" where
  "insert_rows t [] field = Inr t"
| "insert_rows t (d # ds) field =
     (case Tree_insert t d field of
        Inl e \<Rightarrow> Inl e
      | Inr t' \<Rightarrow> insert_rows t' ds field)"

section \<open>Comparison sort\<close>

text \<open>
  The closure handed to \<^verbatim>\<open>sort.Slice(buff[h:], ...)\<close> compares \<^verbatim>\<open>buff[i+h][field]\<close> with
  \<^verbatim>\<open>buff[j+h][field]\<close>, that is the rows currently at positions \<open>i\<close> and \<open>j\<close> of the slice
  being sorted: a comparison of two rows.
\<close>

definition less_rows :: "int \<Rightarrow> bool \<Rightarrow> row \<Rightarrow> row \<Rightarrow> bool" where
  "less_rows field reverse a b =
     (if reverse then a ! nat field > b ! nat field else a ! nat field < b ! nat field)"

text \<open>
  \<^verbatim>\<open>sort.Slice\<close> belongs to Go's standard library, not to this program, so the sort
  engine takes it as a parameter.  Its documented contract: the result is a rearrangement
  of the slice, and for a comparison \<open>lt\<close> that is a strict weak order no element is
  \<open>lt\<close> an element before it; the sort is not promised to be stable.
\<close>

type_synonym slice_sorter = "(row \<Rightarrow> row \<Rightarrow> bool) \<Rightarrow> row list \<Rightarrow> row list"

definition sort_Slice_contract :: "slice_sorter \<Rightarrow> bool" where
  "sort_Slice_contract srt =
     (\<forall>lt xs.
        mset (srt lt xs) = mset xs \<and>
        ((\<forall>a b. lt a b \<longrightarrow> \<not> lt b a) \<and>
         (\<forall>a b c. \<not> lt a b \<and> \<not> lt b c \<longrightarrow> \<not> lt a c)
         \<longrightarrow> sorted_wrt (\<lambda>a b. \<not> lt b a) (srt lt xs)))"

text \<open>One sorter that meets the contract: insertion sort, moving each element to the
  left while it is \<open>lt\<close> its left neighbour (what Go's library runs on slices of
  at most twelve elements).  The accumulator holds the sorted prefix back to front.\<close>

fun insert_left :: "(row \<Rightarrow> row \<Rightarrow> bool) \<Rightarrow> row \<Rightarrow> row list \<Rightarrow> row list" where
  "insert_left lt x [] = [x]"
| "insert_left lt x (y # ys) =
     (if lt x y then y # insert_left lt x ys else x # y # ys)"

definition insertionSort :: slice_sorter where
  "insertionSort lt xs = rev (fold (insert_left lt) xs [])"

text \<open>Another sorter that meets the contract; it leaves rows of equal key in the reverse
  of their order in the slice.\<close>

definition tie_reversing_sort :: slice_sorter where
  "tie_reversing_sort lt xs = insertionSort lt (rev xs)"

section \<open>The sort engine\<close>

text \<open>
  \<^verbatim>\<open>sortContent\<close>.  The channel is the finite sequence of rows it delivers before it is
  closed; the global \<^verbatim>\<open>sorted\<close> is passed in and its new value returned.
  \<^item> Selector 1: \<^verbatim>\<open>buff[h:]\<close> panics when \<open>h > len(buff)\<close>.  A comparison sort of two or
    more elements compares every one of them at least once, so a row without the field
    makes the closure panic; on fewer than two rows the closure is never called.
    Afterwards \<^verbatim>\<open>sorted = buff\<close>.
  \<^item> Selector 2: the rows from \<open>h\<close> on are inserted into an empty tree and
    \<^verbatim>\<open>t.root.rewriteTree()\<close> appends the traversal to \<^verbatim>\<open>sorted\<close>.
  \<^item> Any other selector: the \<^verbatim>\<open>switch\<close> has no default, \<^verbatim>\<open>sorted\<close> is untouched.
\<close>

definition sortContent ::
  "slice_sorter \<Rightarrow> row list \<Rightarrow> bool \<Rightarrow> int \<Rightarrow> bool \<Rightarrow> int \<Rightarrow> row list \<Rightarrow> error + row list"
where
  "sortContent sort_Slice contentCh header field reverse sortAlgorithm sorted' =
     (let buff = contentCh;
          h = (if header then 1 else 0 :: nat)
      in
        if sortAlgorithm = 1 then
          (if length buff < h then Inl SliceBoundsOutOfRange
           else if 2 \<le> length (drop h buff) \<and> (\<exists>r \<in> set (drop h buff). \<not> in_range r field)
             then Inl IndexOutOfRange
           else Inr (take h buff @ sort_Slice (less_rows field reverse) (drop h buff)))
        else if sortAlgorithm = 2 then
          (case insert_rows \<lparr>root = Null\<rparr> (drop h buff) field of
             Inl e \<Rightarrow> Inl e
           | Inr t \<Rightarrow> rewriteTree (root t) sorted')
        else Inr sorted')"

section \<open>Parsing\<close>

text \<open>\<^verbatim>\<open>strings.Split(line, ",")\<close>: the pieces of the line between separators, one more
  than there are separators.\<close>

fun Split :: "string \<Rightarrow> char \<Rightarrow> string list" where
  "Split [] sep = [[]]"
| "Split (c # cs) sep =
     (if c = sep then [] # Split cs sep
      else (case Split cs sep of
              [] \<Rightarrow> [[c]]
            | w # ws \<Rightarrow> (c # w) # ws))"

text \<open>
  \<^verbatim>\<open>bufio.NewScanner(readfrom)\<close> belongs to Go's standard library.  With its default split
  function \<^verbatim>\<open>ScanLines\<close> and its default buffer, the successive values of \<^verbatim>\<open>s.Text()\<close> are
  the lines of the input: the stretches between line feeds, the last one also without a
  line feed after it unless it is empty, each without one trailing carriage return.
  \<^verbatim>\<open>s.Scan()\<close> returns false at the end of the input and also, with \<^verbatim>\<open>ErrTooLong\<close>, at the
  first line that does not fit into the buffer of \<^verbatim>\<open>MaxScanTokenSize\<close> bytes together
  with its line feed: a line of 65536 bytes or more, the carriage return counted.
  The input is the bytes that the reads deliver: after a read error the scanner goes on
  as at the end of the input.  \<^verbatim>\<open>readContent\<close> looks at \<^verbatim>\<open>s.Err()\<close> only before the first
  \<^verbatim>\<open>Scan\<close>, where it is nil, so every way of stopping ends the loop in silence.
\<close>

definition MaxScanTokenSize :: nat where
  "MaxScanTokenSize = 65536"

definition raw_lines :: "string \<Rightarrow> string list" where
  "raw_lines readfrom =
     (let pieces = Split readfrom (CHR 0x0A)
      in if last pieces = [] then butlast pieces else pieces)"

definition dropCR :: "string \<Rightarrow> string" where
  "dropCR l = (if l \<noteq> [] \<and> last l = CHR 0x0D then butlast l else l)"

definition Scan :: "string \<Rightarrow> string list" where
  "Scan readfrom =
     map dropCR (takeWhile (\<lambda>l. length l < MaxScanTokenSize) (raw_lines readfrom))"

text \<open>A file made of the given lines, each ended by a line feed.\<close>

definition file_of_lines :: "string list \<Rightarrow> string" where
  "file_of_lines ls = concat (map (\<lambda>l. l @ [CHR 0x0A]) ls)"

text \<open>The scanning loop of \<^verbatim>\<open>readContent\<close> over the lines the scanner yields, with the
  loop variables \<^verbatim>\<open>n\<close> and \<^verbatim>\<open>content\<close>.\<close>

fun scan_lines :: "nat \<Rightarrow> row list \<Rightarrow> string list \<Rightarrow> error + row list" where
  "scan_lines n content [] = Inr content"
| "scan_lines n content (line # rest) =
     (let row = Split line CHR '','' in
        if line = [] then Inr content
        else
          (let n' = (if n = 0 then length row else n) in
             if n' \<noteq> length row then Inl ColumnMismatch
             else scan_lines n' (content @ [row]) rest))"

definition readContent :: "string \<Rightarrow> error + row list" where
  "readContent readfrom = scan_lines 0 [] (Scan readfrom)"


section \<open>Directory mode: the reader pool and the fan-in\<close>

text \<open>
  The goroutines of \<^verbatim>\<open>fileReadinStage\<close> and \<^verbatim>\<open>readFiles\<close> as a transition system.  A channel
  value is either nil or a reference to a channel made by \<^verbatim>\<open>make\<close>; channels are numbered
  in the order of their creation.  All channels of the program are unbuffered.
\<close>

type_synonym chan = "nat option"

text \<open>A reader goroutine of \<^verbatim>\<open>readFiles\<close>: the channel it sends on and the rows of its
  current file that it has still to send.  A forwarding goroutine of \<^verbatim>\<open>fileReadinStage\<close>:
  the channel \<^verbatim>\<open>ch\<close> it ranges over, the row it has received and not yet passed on, and
  whether it has left its loop and called \<^verbatim>\<open>wg.Done()\<close>.\<close>

record reader =
  r_chan :: chan
  r_pending :: "row list"

record forwarder =
  f_chan :: chan
  f_holding :: "row option"
  f_done :: bool

text \<open>The whole pipeline: the file names \<^verbatim>\<open>readDir\<close> has still to send, the channels
  closed so far, the goroutines, the counter of the wait group, the rows received from
  \<^verbatim>\<open>allLines\<close> by \<^verbatim>\<open>sortContent\<close>, whether \<^verbatim>\<open>allLines\<close> has been closed, and the fatal error
  that ended the process, if any.\<close>

record pipeline =
  names_left :: "string list"
  next_chan :: nat
  closed_chans :: "nat list"
  readers :: "reader list"
  forwarders :: "forwarder list"
  wg :: nat
  merged :: "row list"
  merged_closed :: bool
  halted :: "error option"

text \<open>\<^verbatim>\<open>readFiles(fnames, lines)\<close>.  Go passes the channel argument by value, and the first
  statement \<^verbatim>\<open>lines = make(chan []string)\<close> overwrites the function's own copy of it: the
  goroutine sends on the new channel, and the caller's variable is not touched.\<close>

definition readFiles :: "pipeline \<Rightarrow> chan \<Rightarrow> pipeline" where
  "readFiles s lines' =
     (let lines' = Some (next_chan s) in
        s\<lparr>next_chan := Suc (next_chan s),
          readers := readers s @ [\<lparr>r_chan = lines', r_pending = []\<rparr>]\<rparr>)"

text \<open>\<^verbatim>\<open>fileReadinStage(fnames, n)\<close> up to its return: \<^verbatim>\<open>make([]chan []string, n)\<close> is a
  slice of \<open>n\<close> nil channels, the first loop calls \<^verbatim>\<open>readFiles(fnames, lines[i])\<close>, the
  second starts one forwarding goroutine per element of \<^verbatim>\<open>lines\<close> after \<^verbatim>\<open>wg.Add(1)\<close>.\<close>

definition fileReadinStage :: "string list \<Rightarrow> nat \<Rightarrow> pipeline" where
  "fileReadinStage fnames n =
     (let lines' = replicate n None;
          s0 = \<lparr>names_left = fnames, next_chan = 0, closed_chans = [], readers = [],
                forwarders = [], wg = 0, merged = [], merged_closed = False, halted = None\<rparr>;
          s1 = fold (\<lambda>i s. readFiles s (lines' ! i)) [0..<n] s0
      in s1\<lparr>forwarders := map (\<lambda>i. \<lparr>f_chan = lines' ! i, f_holding = None, f_done = False\<rparr>) [0..<n],
            wg := n\<rparr>)"

text \<open>
  The steps of the goroutines; \<open>files\<close> gives for a file name the bytes of the file, or the
  error of \<^verbatim>\<open>os.Open\<close>.
  \<^item> \<open>take_file\<close>, \<open>open_fails\<close>, \<open>parse_fails\<close>: a reader at the head of its loop receives
    the next name from \<^verbatim>\<open>fnames\<close> and reads the file; \<^verbatim>\<open>log.Fatal\<close> ends the process.
  \<^item> \<open>hand_over\<close>: a send \<^verbatim>\<open>lines <- line\<close> of a reader meets the receive of a forwarder
    that ranges over the same channel.  A receive from a nil channel never happens.
  \<^item> \<open>forward\<close>: a forwarder sends its row on \<^verbatim>\<open>allLines\<close>, where \<^verbatim>\<open>sortContent\<close> receives.
  \<^item> \<open>drained\<close>: the loop of a forwarder ends when its channel has been closed; then
    \<^verbatim>\<open>wg.Done()\<close>.  No step closes such a channel, as no statement of the program does.
  \<^item> \<open>close_merged\<close>: \<^verbatim>\<open>wg.Wait()\<close> returns when the counter is zero; then
    \<^verbatim>\<open>close(allLines)\<close>.
\<close>

inductive step :: "(string \<Rightarrow> error + string) \<Rightarrow> pipeline \<Rightarrow> pipeline \<Rightarrow> bool"
  for files :: "string \<Rightarrow> error + string"
where
  take_file:
    "halted s = None \<Longrightarrow> i < length (readers s) \<Longrightarrow> r_pending (readers s ! i) = [] \<Longrightarrow>
     names_left s = fn # rest \<Longrightarrow> files fn = Inr f \<Longrightarrow> readContent f = Inr rows \<Longrightarrow>
     step files s
       (s\<lparr>names_left := rest,
          readers := (readers s)[i := (readers s ! i)\<lparr>r_pending := rows\<rparr>]\<rparr>)"
| open_fails:
    "halted s = None \<Longrightarrow> i < length (readers s) \<Longrightarrow> r_pending (readers s ! i) = [] \<Longrightarrow>
     names_left s = fn # rest \<Longrightarrow> files fn = Inl e \<Longrightarrow>
     step files s (s\<lparr>names_left := rest, halted := Some e\<rparr>)"
| parse_fails:
    "halted s = None \<Longrightarrow> i < length (readers s) \<Longrightarrow> r_pending (readers s ! i) = [] \<Longrightarrow>
     names_left s = fn # rest \<Longrightarrow> files fn = Inr f \<Longrightarrow> readContent f = Inl e \<Longrightarrow>
     step files s (s\<lparr>names_left := rest, halted := Some e\<rparr>)"
| hand_over:
    "halted s = None \<Longrightarrow> i < length (readers s) \<Longrightarrow> r_pending (readers s ! i) = line # rows \<Longrightarrow>
     r_chan (readers s ! i) = Some c \<Longrightarrow>
     j < length (forwarders s) \<Longrightarrow> f_chan (forwarders s ! j) = Some c \<Longrightarrow>
     f_holding (forwarders s ! j) = None \<Longrightarrow> \<not> f_done (forwarders s ! j) \<Longrightarrow>
     step files s
       (s\<lparr>readers := (readers s)[i := (readers s ! i)\<lparr>r_pending := rows\<rparr>],
          forwarders := (forwarders s)[j := (forwarders s ! j)\<lparr>f_holding := Some line\<rparr>]\<rparr>)"
| forward:
    "halted s = None \<Longrightarrow> j < length (forwarders s) \<Longrightarrow>
     f_holding (forwarders s ! j) = Some line \<Longrightarrow> \<not> merged_closed s \<Longrightarrow>
     step files s
       (s\<lparr>forwarders := (forwarders s)[j := (forwarders s ! j)\<lparr>f_holding := None\<rparr>],
          merged := merged s @ [line]\<rparr>)"
| drained:
    "halted s = None \<Longrightarrow> j < length (forwarders s) \<Longrightarrow>
     f_chan (forwarders s ! j) = Some c \<Longrightarrow> c \<in> set (closed_chans s) \<Longrightarrow>
     f_holding (forwarders s ! j) = None \<Longrightarrow> \<not> f_done (forwarders s ! j) \<Longrightarrow>
     step files s
       (s\<lparr>forwarders := (forwarders s)[j := (forwarders s ! j)\<lparr>f_done := True\<rparr>],
          wg := wg s - 1\<rparr>)"
| close_merged:
    "halted s = None \<Longrightarrow> wg s = 0 \<Longrightarrow> \<not> merged_closed s \<Longrightarrow>
     step files s (s\<lparr>merged_closed := True\<rparr>)"

text \<open>Three files of two rows each, read by a pool of three: the start of the
  pipeline, and the state in which each reader has read one file.\<close>

definition two_row_files :: "string \<Rightarrow> error + string" where
  "two_row_files fn =
     (if fn = ''f1'' then Inr (file_of_lines [''b,1'', ''a,2''])
      else if fn = ''f2'' then Inr (file_of_lines [''d,3'', ''c,4''])
      else if fn = ''f3'' then Inr (file_of_lines [''f,5'', ''e,6''])
      else Inl OpenFailed)"

definition scenario_D :: pipeline where
  "scenario_D = fileReadinStage [''f1'', ''f2'', ''f3''] 3"

definition scenario_D_blocked :: pipeline where
  "scenario_D_blocked =
     scenario_D\<lparr>names_left := [],
       readers := [\<lparr>r_chan = Some 0, r_pending = [[''b'', ''1''], [''a'', ''2'']]\<rparr>,
                   \<lparr>r_chan = Some 1, r_pending = [[''d'', ''3''], [''c'', ''4'']]\<rparr>,
                   \<lparr>r_chan = Some 2, r_pending = [[''f'', ''5''], [''e'', ''6'']]\<rparr>]\<rparr>"

text \<open>The invariant of the pipeline: every forwarder ranges over the nil channel and
  holds no row, the wait group still counts \<open>n\<close>, nothing has arrived.\<close>

definition stuck :: "nat \<Rightarrow> pipeline \<Rightarrow> bool" where
  "stuck n s \<longleftrightarrow>
     list_all (\<lambda>f. f_chan f = None \<and> f_holding f = None) (forwarders s) \<and>
     wg s = n \<and> merged s = [] \<and> \<not> merged_closed s"

section \<open>Auxiliary notions for the proofs\<close>

text \<open>The rows of a tree from left to right, and the sort key of a row.  Neither is part
  of the program: \<open>inorder\<close> describes what \<^verbatim>\<open>rewriteTree\<close> appends, and \<open>field_key\<close> is
  \<^verbatim>\<open>row[field]\<close> for the rows where that read succeeds.\<close>

fun inorder :: "Node \<Rightarrow> row list" where
  "inorder Null = []"
| "inorder (Node d l r) = inorder l @ d # inorder r"

definition field_key :: "int \<Rightarrow> row \<Rightarrow> string" where
  "field_key field r = r ! nat field"

text \<open>The header offset \<^verbatim>\<open>h\<close> of \<^verbatim>\<open>sortContent\<close>.\<close>

definition offset :: "bool \<Rightarrow> nat" where
  "offset header = (if header then 1 else 0)"



section \<open>Tree sort: what the traversal returns\<close>

lemma index_Inr_iff: "index r f = Inr a \<longleftrightarrow> in_range r f \<and> a = field_key f r"
  by (auto simp: index_def field_key_def)

lemma index_Inl_iff: "index r f = Inl e \<longleftrightarrow> \<not> in_range r f \<and> e = IndexOutOfRange"
  by (auto simp: index_def)

lemma rewriteTree_inorder:
  "t \<noteq> Null \<Longrightarrow> rewriteTree t s = Inr (s @ inorder t)"
proof (induction t arbitrary: s)
  case Null
  then show ?case by simp
next
  case (Node d l r)
  show ?case
  proof (cases "l = Null")
    case True
    then show ?thesis using Node.IH(2) by (cases "r = Null") simp_all
  next
    case False
    then show ?thesis using Node.IH by (cases "r = Null") simp_all
  qed
qed

lemma insort_key_before:
  "f x \<le> f y \<Longrightarrow> insort_key f x (xs @ y # ys) = insort_key f x xs @ y # ys"
  by (induction xs) auto

lemma insort_key_after:
  "\<forall>z \<in> set xs. f z < f x \<Longrightarrow> insort_key f x (xs @ ys) = xs @ insort_key f x ys"
  by (induction xs) auto

text \<open>On a search tree, \<^verbatim>\<open>insert\<close> puts the new row in front of the first row whose key is
  not smaller: ties go left.\<close>

lemma Node_insert_inorder:
  "t \<noteq> Null \<Longrightarrow> sorted (map (field_key f) (inorder t)) \<Longrightarrow> Node_insert t d f = Inr t' \<Longrightarrow>
   t' \<noteq> Null \<and> inorder t' = insort_key (field_key f) d (inorder t)"
proof (induction t d f arbitrary: t' rule: Node_insert.induct)
  case (1 d field)
  then show ?case by simp
next
  case (2 nd l r d field)
  from "2.prems"(3) obtain a b where a: "index d field = Inr a" and b: "index nd field = Inr b"
    by (auto split: sum.splits)
  then have ka: "a = field_key field d" and kb: "b = field_key field nd"
    by (simp_all add: index_Inr_iff)
  have sl: "sorted (map (field_key field) (inorder l))"
    and sr: "sorted (map (field_key field) (inorder r))"
    and lo: "\<forall>z \<in> set (inorder l). field_key field z \<le> field_key field nd"
    using "2.prems"(2) by (auto simp: sorted_append)
  show ?case
  proof (cases "a \<le> b")
    case True
    show ?thesis
    proof (cases "l = Null")
      case True
      with \<open>a \<le> b\<close> a b "2.prems"(3) ka kb show ?thesis by auto
    next
      case False
      with \<open>a \<le> b\<close> a b "2.prems"(3) obtain l' where l': "Node_insert l d field = Inr l'"
        and t': "t' = Node nd l' r"
        by (auto split: sum.splits)
      from "2.IH"(1)[OF a b True False False sl l']
      have "l' \<noteq> Null" "inorder l' = insort_key (field_key field) d (inorder l)" by simp_all
      with t' True ka kb show ?thesis by (simp add: insort_key_before)
    qed
  next
    case False
    then have lt: "field_key field nd < field_key field d" using ka kb by simp
    with lo have lo': "\<forall>z \<in> set (inorder l @ [nd]). field_key field z < field_key field d"
      by auto
    show ?thesis
    proof (cases "r = Null")
      case True
      with False a b "2.prems"(3) have "t' = Node nd l (Node d Null Null)" by auto
      then show ?thesis using insort_key_after[OF lo', of "[]"] True by simp
    next
      case rn: False
      with False a b "2.prems"(3) obtain r' where r': "Node_insert r d field = Inr r'"
        and t': "t' = Node nd l r'"
        by (auto split: sum.splits)
      from "2.IH"(2)[OF a b False rn rn sr r']
      have "r' \<noteq> Null" "inorder r' = insort_key (field_key field) d (inorder r)" by simp_all
      with t' show ?thesis using insort_key_after[OF lo', of "inorder r"] by simp
    qed
  qed
qed

lemma Node_insert_total:
  "t \<noteq> Null \<Longrightarrow> in_range d f \<Longrightarrow> \<forall>r \<in> set (inorder t). in_range r f \<Longrightarrow>
   \<exists>t'. Node_insert t d f = Inr t'"
proof (induction t d f rule: Node_insert.induct)
  case (1 d field)
  then show ?case by simp
next
  case (2 nd l r d field)
  have a: "index d field = Inr (field_key field d)"
    and b: "index nd field = Inr (field_key field nd)"
    using "2.prems" by (simp_all add: index_Inr_iff)
  show ?case
  proof (cases "field_key field d \<le> field_key field nd")
    case True
    show ?thesis
    proof (cases "l = Null")
      case ln: True
      with True a b show ?thesis by simp
    next
      case ln: False
      from "2.IH"(1)[OF a b True ln ln] "2.prems" obtain l' where "Node_insert l d field = Inr l'"
        by auto
      with True ln a b show ?thesis by simp
    qed
  next
    case False
    show ?thesis
    proof (cases "r = Null")
      case rn: True
      with False a b show ?thesis by simp
    next
      case rn: False
      from "2.IH"(2)[OF a b False rn rn] "2.prems" obtain r' where "Node_insert r d field = Inr r'"
        by auto
      with False rn a b show ?thesis by simp
    qed
  qed
qed

lemma Node_insert_bad_row:
  "t \<noteq> Null \<Longrightarrow> \<not> in_range d f \<Longrightarrow> Node_insert t d f = Inl IndexOutOfRange"
  by (cases t) (auto simp: index_def)

lemma fold_insort_sort_key:
  "fold (insort_key k) xs [] = sort_key k (rev xs)"
  by (simp add: sort_key_def foldr_conv_fold)

lemma Tree_insert_nonempty:
  assumes "root t \<noteq> Null"
    and "sorted (map (field_key f) (inorder (root t)))"
    and "\<forall>r \<in> set (inorder (root t)). in_range r f"
  shows "in_range d f \<Longrightarrow>
           \<exists>t'. Tree_insert t d f = Inr t' \<and> root t' \<noteq> Null \<and>
                inorder (root t') = insort_key (field_key f) d (inorder (root t))"
    and "\<not> in_range d f \<Longrightarrow> Tree_insert t d f = Inl IndexOutOfRange"
proof -
  assume d: "in_range d f"
  from Node_insert_total[OF assms(1) d assms(3)] obtain n where n: "Node_insert (root t) d f = Inr n"
    by blast
  from Node_insert_inorder[OF assms(1,2) n] n assms(1)
  show "\<exists>t'. Tree_insert t d f = Inr t' \<and> root t' \<noteq> Null \<and>
                inorder (root t') = insort_key (field_key f) d (inorder (root t))"
    by (simp add: Tree_insert_def)
next
  assume "\<not> in_range d f"
  with assms(1) show "Tree_insert t d f = Inl IndexOutOfRange"
    by (simp add: Tree_insert_def Node_insert_bad_row)
qed

lemma insert_rows_nonempty:
  assumes "root t \<noteq> Null"
    and "sorted (map (field_key f) (inorder (root t)))"
    and "\<forall>r \<in> set (inorder (root t)). in_range r f"
    and "\<forall>d \<in> set ds. in_range d f"
  shows "\<exists>t'. insert_rows t ds f = Inr t' \<and> root t' \<noteq> Null \<and>
              inorder (root t') = fold (insort_key (field_key f)) ds (inorder (root t))"
  using assms
proof (induction ds arbitrary: t)
  case Nil
  then show ?case by simp
next
  case (Cons d ds)
  have d: "in_range d f" and ds: "\<forall>d \<in> set ds. in_range d f"
    using Cons.prems(4) by simp_all
  from Tree_insert_nonempty(1)[OF Cons.prems(1-3) d] obtain t1 where
    t1: "Tree_insert t d f = Inr t1" "root t1 \<noteq> Null"
      "inorder (root t1) = insort_key (field_key f) d (inorder (root t))"
    by blast
  have s1: "sorted (map (field_key f) (inorder (root t1)))"
    using Cons.prems(2) t1(3) by (simp add: sorted_insort_key)
  have r1: "\<forall>r \<in> set (inorder (root t1)). in_range r f"
    using Cons.prems(3) d t1(3) by (simp add: set_insort_key)
  from Cons.IH[OF t1(2) s1 r1 ds] t1 show ?case by simp
qed

lemma insert_rows_bad_row:
  assumes "root t \<noteq> Null"
    and "sorted (map (field_key f) (inorder (root t)))"
    and "\<forall>r \<in> set (inorder (root t)). in_range r f"
    and "\<exists>d \<in> set ds. \<not> in_range d f"
  shows "insert_rows t ds f = Inl IndexOutOfRange"
  using assms
proof (induction ds arbitrary: t)
  case Nil
  then show ?case by simp
next
  case (Cons d ds)
  show ?case
  proof (cases "in_range d f")
    case False
    with Tree_insert_nonempty(2)[OF Cons.prems(1-3) False] show ?thesis by simp
  next
    case True
    with Cons.prems(4) have ds: "\<exists>d \<in> set ds. \<not> in_range d f" by simp
    from Tree_insert_nonempty(1)[OF Cons.prems(1-3) True] obtain t1 where
      t1: "Tree_insert t d f = Inr t1" "root t1 \<noteq> Null"
        "inorder (root t1) = insort_key (field_key f) d (inorder (root t))"
      by blast
    have s1: "sorted (map (field_key f) (inorder (root t1)))"
      using Cons.prems(2) t1(3) by (simp add: sorted_insort_key)
    have r1: "\<forall>r \<in> set (inorder (root t1)). in_range r f"
      using Cons.prems(3) True t1(3) by (simp add: set_insort_key)
    from Cons.IH[OF t1(2) s1 r1 ds] t1 show ?thesis by simp
  qed
qed

text \<open>Starting from the empty tree, the first row becomes the root without any field
  being read; from the second row on every insertion reads the field of the new row, and
  the second one also that of the root.\<close>

lemma insert_rows_first:
  "insert_rows \<lparr>root = Null\<rparr> (d # es) f = insert_rows \<lparr>root = Node d Null Null\<rparr> es f"
  by (simp add: Tree_insert_def)

lemma insert_rows_empty_tree_error:
  assumes "2 \<le> length ds" and "\<exists>d \<in> set ds. \<not> in_range d f"
  shows "insert_rows \<lparr>root = Null\<rparr> ds f = Inl IndexOutOfRange"
proof -
  from assms(1) obtain d e es where ds: "ds = d # e # es"
    by (cases ds; cases "tl ds") auto
  show ?thesis
  proof (cases "in_range d f")
    case True
    with assms(2) ds have "\<exists>r \<in> set (e # es). \<not> in_range r f" by simp
    with True have "insert_rows \<lparr>root = Node d Null Null\<rparr> (e # es) f = Inl IndexOutOfRange"
      by (intro insert_rows_bad_row) simp_all
    then show ?thesis by (simp only: ds insert_rows_first)
  next
    case False
    then show ?thesis
      by (simp add: ds Tree_insert_def index_def split: sum.splits)
  qed
qed

lemma insert_rows_empty_tree_ok:
  assumes "ds \<noteq> []" and "\<not> (2 \<le> length ds \<and> (\<exists>d \<in> set ds. \<not> in_range d f))"
  shows "\<exists>t'. insert_rows \<lparr>root = Null\<rparr> ds f = Inr t' \<and> root t' \<noteq> Null \<and>
              inorder (root t') = sort_key (field_key f) (rev ds)"
proof -
  from assms(1) obtain d es where ds: "ds = d # es" by (cases ds) auto
  have "\<exists>t'. insert_rows \<lparr>root = Node d Null Null\<rparr> es f = Inr t' \<and> root t' \<noteq> Null \<and>
              inorder (root t') = fold (insort_key (field_key f)) es [d]"
  proof (cases "es = []")
    case True
    then show ?thesis by simp
  next
    case False
    with assms(2) ds have "\<forall>r \<in> set (d # es). in_range r f"
      by (cases es) auto
    then show ?thesis
      using insert_rows_nonempty[of "\<lparr>root = Node d Null Null\<rparr>" f es] by simp
  qed
  then show ?thesis
    using fold_insort_sort_key[of "field_key f" ds] by (simp add: ds Tree_insert_def)
qed

text \<open>The whole of selector 2, in closed form: the traversal is the stable sort of the
  reversed rows, appended to the previous value of \<^verbatim>\<open>sorted\<close>.\<close>

lemma sortContent_tree:
  "sortContent srt buff header field reverse 2 s =
     (if drop (offset header) buff = [] then Inl NilPointerDereference
      else if 2 \<le> length (drop (offset header) buff) \<and>
              (\<exists>r \<in> set (drop (offset header) buff). \<not> in_range r field)
        then Inl IndexOutOfRange
      else Inr (s @ sort_key (field_key field) (rev (drop (offset header) buff))))"
proof -
  define sub where "sub = drop (offset header) buff"
  have unf: "sortContent srt buff header field reverse 2 s =
      (case insert_rows \<lparr>root = Null\<rparr> sub field of
         Inl e \<Rightarrow> Inl e
       | Inr t \<Rightarrow> rewriteTree (root t) s)"
    by (simp add: sortContent_def sub_def offset_def)
  show ?thesis
  proof (cases "sub = []")
    case True
    then show ?thesis unfolding unf by (simp add: sub_def[symmetric])
  next
    case ne: False
    show ?thesis
    proof (cases "2 \<le> length sub \<and> (\<exists>r \<in> set sub. \<not> in_range r field)")
      case True
      then have "insert_rows \<lparr>root = Null\<rparr> sub field = Inl IndexOutOfRange"
        by (intro insert_rows_empty_tree_error) simp_all
      with ne True show ?thesis unfolding unf by (simp add: sub_def[symmetric])
    next
      case False
      from insert_rows_empty_tree_ok[OF ne False] obtain t' where
        "insert_rows \<lparr>root = Null\<rparr> sub field = Inr t'" "root t' \<noteq> Null"
        "inorder (root t') = sort_key (field_key field) (rev sub)"
        by blast
      with ne False show ?thesis
        unfolding unf by (simp add: sub_def[symmetric] rewriteTree_inorder)
    qed
  qed
qed

section \<open>Comparison sort: what the contract of the library sort gives\<close>


lemma mset_insert_left: "mset (insert_left lt x ys) = add_mset x (mset ys)"
  by (induction ys) simp_all

lemma set_insert_left: "set (insert_left lt x ys) = insert x (set ys)"
  by (induction ys) auto

lemma mset_fold_insert_left: "mset (fold (insert_left lt) xs acc) = mset xs + mset acc"
  by (induction xs arbitrary: acc) (simp_all add: mset_insert_left)

lemma sorted_insert_left:
  assumes asym: "\<And>a b. lt a b \<Longrightarrow> \<not> lt b a"
    and ntr: "\<And>a b c. \<not> lt a b \<Longrightarrow> \<not> lt b c \<Longrightarrow> \<not> lt a c"
  shows "sorted_wrt (\<lambda>a b. \<not> lt a b) ys \<Longrightarrow> sorted_wrt (\<lambda>a b. \<not> lt a b) (insert_left lt x ys)"
proof (induction ys)
  case Nil
  then show ?case by simp
next
  case (Cons y ys)
  from Cons.prems have tail: "sorted_wrt (\<lambda>a b. \<not> lt a b) ys"
    and head: "\<forall>z \<in> set ys. \<not> lt y z" by simp_all
  show ?case
  proof (cases "lt x y")
    case True
    then have "\<not> lt y x" by (rule asym)
    with head have "\<forall>z \<in> set (insert_left lt x ys). \<not> lt y z"
      by (simp add: set_insert_left)
    with True Cons.IH[OF tail] show ?thesis by simp
  next
    case False
    have "\<forall>z \<in> set ys. \<not> lt x z"
    proof
      fix z assume "z \<in> set ys"
      with head have "\<not> lt y z" by simp
      with False show "\<not> lt x z" by (rule ntr)
    qed
    with False Cons.prems show ?thesis by simp
  qed
qed

lemma sorted_fold_insert_left:
  assumes asym: "\<And>a b. lt a b \<Longrightarrow> \<not> lt b a"
    and ntr: "\<And>a b c. \<not> lt a b \<Longrightarrow> \<not> lt b c \<Longrightarrow> \<not> lt a c"
  shows "sorted_wrt (\<lambda>a b. \<not> lt a b) acc \<Longrightarrow>
         sorted_wrt (\<lambda>a b. \<not> lt a b) (fold (insert_left lt) xs acc)"
proof (induction xs arbitrary: acc)
  case Nil
  then show ?case by simp
next
  case (Cons x xs)
  from sorted_insert_left[of lt acc x, OF asym ntr Cons.prems]
  have "sorted_wrt (\<lambda>a b. \<not> lt a b) (insert_left lt x acc)" .
  from Cons.IH[OF this] show ?case by simp
qed

lemma insertionSort_contract: "sort_Slice_contract insertionSort"
  unfolding sort_Slice_contract_def
proof (intro allI conjI impI)
  fix lt :: "row \<Rightarrow> row \<Rightarrow> bool" and xs
  show "mset (insertionSort lt xs) = mset xs"
    by (simp add: insertionSort_def mset_fold_insert_left)
  assume h: "(\<forall>a b. lt a b \<longrightarrow> \<not> lt b a) \<and> (\<forall>a b c. \<not> lt a b \<and> \<not> lt b c \<longrightarrow> \<not> lt a c)"
  have "sorted_wrt (\<lambda>a b. \<not> lt a b) (fold (insert_left lt) xs [])"
  proof (rule sorted_fold_insert_left)
    show "\<And>a b. lt a b \<Longrightarrow> \<not> lt b a" using h by blast
    show "\<And>a b c. \<not> lt a b \<Longrightarrow> \<not> lt b c \<Longrightarrow> \<not> lt a c" using h by blast
    show "sorted_wrt (\<lambda>a b. \<not> lt a b) []" by simp
  qed
  then show "sorted_wrt (\<lambda>a b. \<not> lt b a) (insertionSort lt xs)"
    by (simp add: insertionSort_def sorted_wrt_rev)
qed

lemma less_rows_strict_weak:
  "less_rows f rv a b \<Longrightarrow> \<not> less_rows f rv b a"
  "\<not> less_rows f rv a b \<Longrightarrow> \<not> less_rows f rv b c \<Longrightarrow> \<not> less_rows f rv a c"
  by (auto simp: less_rows_def split: if_splits)

lemma contract_sorted:
  assumes "sort_Slice_contract srt"
  shows "mset (srt lt xs) = mset xs"
    and "length (srt lt xs) = length xs"
    and "set (srt lt xs) = set xs"
    and "sorted_wrt (\<lambda>a b. \<not> less_rows f rv b a) (srt (less_rows f rv) xs)"
proof -
  from assms have inst: "mset (srt lt' ys) = mset ys \<and>
      ((\<forall>a b. lt' a b \<longrightarrow> \<not> lt' b a) \<and> (\<forall>a b c. \<not> lt' a b \<and> \<not> lt' b c \<longrightarrow> \<not> lt' a c)
        \<longrightarrow> sorted_wrt (\<lambda>a b. \<not> lt' b a) (srt lt' ys))" for lt' ys
    unfolding sort_Slice_contract_def by (elim allE)
  show m: "mset (srt lt xs) = mset xs" using inst[of lt xs] by (rule conjunct1)
  show "length (srt lt xs) = length xs" using m by (rule mset_eq_length)
  show "set (srt lt xs) = set xs" using m by (rule mset_eq_setD)
  have swo: "(\<forall>a b. less_rows f rv a b \<longrightarrow> \<not> less_rows f rv b a) \<and>
        (\<forall>a b c. \<not> less_rows f rv a b \<and> \<not> less_rows f rv b c \<longrightarrow> \<not> less_rows f rv a c)"
    by (intro conjI allI impI) (auto simp: less_rows_def split: if_splits)
  from inst[of "less_rows f rv" xs, THEN conjunct2, rule_format, OF swo]
  show "sorted_wrt (\<lambda>a b. \<not> less_rows f rv b a) (srt (less_rows f rv) xs)" .
qed

text \<open>A list that is strictly ordered by a key is the only ordered arrangement of its
  elements.\<close>

lemma strictly_sorted_unique:
  fixes k :: "'a \<Rightarrow> 'b::linorder"
  assumes "mset ys = mset xs"
    and "sorted_wrt (\<lambda>a b. k a < k b) xs"
    and "sorted (map k ys)"
  shows "ys = xs"
proof -
  have sx: "sorted_wrt (<) (map k xs)" using assms(2) by (simp add: sorted_wrt_map)
  then have dx: "distinct (map k xs)" and ox: "sorted (map k xs)"
    by (simp_all add: strict_sorted_iff)
  have mk: "mset (map k ys) = mset (map k xs)" using assms(1) by simp
  have dy: "distinct (map k ys)"
    using dx mset_eq_imp_distinct_iff[OF mk] by simp
  have st: "set (map k ys) = set (map k xs)" using mk by (rule mset_eq_setD)
  have eq: "map k ys = map k xs"
    by (rule sorted_distinct_set_unique[OF assms(3) dy ox dx st])
  have "set ys = set xs" using assms(1) by (rule mset_eq_setD)
  moreover have "inj_on k (set xs)" using dx by (simp add: distinct_map)
  ultimately have "inj_on k (set ys \<union> set xs)" by simp
  then show ?thesis using eq by (simp add: inj_on_map_eq_map)
qed

lemma less_rows_key:
  "less_rows f False = (\<lambda>a b. field_key f a < field_key f b)"
  "less_rows f True = (\<lambda>a b. field_key f b < field_key f a)"
  by (simp_all add: fun_eq_iff less_rows_def field_key_def)

text \<open>Under the contract, a list that can be arranged in strict order is sorted to that
  arrangement, whatever the sorter does with ties elsewhere.\<close>

lemma contract_sorts_to:
  assumes c: "sort_Slice_contract srt" and m: "mset zs = mset xs"
    and s: "sorted_wrt (less_rows f rv) zs"
  shows "srt (less_rows f rv) xs = zs"
proof -
  let ?ys = "srt (less_rows f rv) xs"
  have m': "mset ?ys = mset zs" using contract_sorted(1)[OF c, of "less_rows f rv" xs] m by simp
  have o: "sorted_wrt (\<lambda>a b. \<not> less_rows f rv b a) ?ys" by (rule contract_sorted(4)[OF c])
  show ?thesis
  proof (cases rv)
    case False
    from s False have a: "sorted_wrt (\<lambda>a b. field_key f a < field_key f b) zs"
      by (simp add: less_rows_key)
    from o False have b: "sorted (map (field_key f) ?ys)"
      by (simp add: less_rows_key sorted_map not_less)
    show ?thesis by (rule strictly_sorted_unique[OF m' a b])
  next
    case True
    from s True have a: "sorted_wrt (\<lambda>a b. field_key f a < field_key f b) (rev zs)"
      by (simp add: less_rows_key sorted_wrt_rev)
    from o True have b: "sorted (map (field_key f) (rev ?ys))"
      by (simp add: less_rows_key sorted_map sorted_wrt_rev not_less)
    have r: "mset (rev ?ys) = mset (rev zs)" using m' by simp
    have "rev ?ys = rev zs" by (rule strictly_sorted_unique[OF r a b])
    then show ?thesis by simp
  qed
qed

lemma contract_strictly_sorted_fixed:
  assumes "sort_Slice_contract srt" and "sorted_wrt (less_rows f rv) xs"
  shows "srt (less_rows f rv) xs = xs"
  by (rule contract_sorts_to[OF assms(1) refl assms(2)])

text \<open>Selector 1 in closed form.\<close>

lemma sortContent_compare:
  "sortContent srt buff header field reverse 1 s =
     (if length buff < offset header then Inl SliceBoundsOutOfRange
      else if 2 \<le> length (drop (offset header) buff) \<and>
              (\<exists>r \<in> set (drop (offset header) buff). \<not> in_range r field)
        then Inl IndexOutOfRange
      else Inr (take (offset header) buff @
                srt (less_rows field reverse) (drop (offset header) buff)))"
  by (cases header; cases buff) (auto simp: sortContent_def offset_def Let_def)

section \<open>Tree sort: rows with equal keys\<close>


lemma filter_append_split:
  "filter P zs = ps @ qs \<Longrightarrow> \<exists>zs1 zs2. zs = zs1 @ zs2 \<and> filter P zs1 = ps \<and> filter P zs2 = qs"
proof (induction zs arbitrary: ps)
  case Nil
  then show ?case by simp
next
  case (Cons z zs)
  show ?case
  proof (cases "P z")
    case False
    with Cons.prems have "filter P zs = ps @ qs" by simp
    from Cons.IH[OF this] obtain zs1 zs2 where
      "zs = zs1 @ zs2" "filter P zs1 = ps" "filter P zs2 = qs" by blast
    with False have "z # zs = (z # zs1) @ zs2 \<and> filter P (z # zs1) = ps \<and> filter P zs2 = qs"
      by simp
    then show ?thesis by blast
  next
    case True
    show ?thesis
    proof (cases ps)
      case Nil
      with Cons.prems have "z # zs = [] @ (z # zs) \<and> filter P [] = ps \<and> filter P (z # zs) = qs"
        by simp
      then show ?thesis by blast
    next
      case (Cons p ps')
      with True Cons.prems have pz: "p = z" and "filter P zs = ps' @ qs" by simp_all
      from Cons.IH[OF this(2)] obtain zs1 zs2 where
        "zs = zs1 @ zs2" "filter P zs1 = ps'" "filter P zs2 = qs" by blast
      with True pz Cons have "z # zs = (z # zs1) @ zs2 \<and> filter P (z # zs1) = ps \<and> filter P zs2 = qs"
        by simp
      then show ?thesis by blast
    qed
  qed
qed

lemma filter_Cons_split:
  "filter P zs = y # qs \<Longrightarrow> \<exists>zs1 zs2. zs = zs1 @ y # zs2 \<and> filter P zs2 = qs"
  by (auto simp: filter_eq_Cons_iff)

lemma filter_two_in_order:
  assumes "filter P zs = ps @ y # qs @ x # rs"
  shows "\<exists>us vs ws. zs = us @ y # vs @ x # ws"
proof -
  from filter_append_split[OF assms] obtain z1 z2 where
    z: "zs = z1 @ z2" "filter P z2 = y # qs @ x # rs" by blast
  from filter_Cons_split[OF z(2)] obtain a1 a2 where
    a: "z2 = a1 @ y # a2" "filter P a2 = qs @ x # rs" by blast
  from filter_append_split[OF a(2)] obtain b1 b2 where
    b: "a2 = b1 @ b2" "filter P b2 = x # rs" by blast
  from filter_Cons_split[OF b(2)] obtain c1 c2 where
    c: "b2 = c1 @ x # c2" by blast
  have "zs = (z1 @ a1) @ y # (b1 @ c1) @ x # c2"
    by (simp add: z a b c)
  then show ?thesis by blast
qed

text \<open>In a tree-sort result the rows of each key stand in the reverse of their order in
  the buffer.\<close>

lemma tree_sort_equal_keys_reversed:
  assumes "sortContent srt buff header field reverse 2 [] = Inr out"
  shows "filter (\<lambda>r. field_key field r = k) out
           = rev (filter (\<lambda>r. field_key field r = k) (drop (offset header) buff))"
proof -
  from assms have "out = sort_key (field_key field) (rev (drop (offset header) buff))"
    by (auto simp: sortContent_tree split: if_splits)
  then show ?thesis by (simp add: sort_key_stable rev_filter)
qed

section \<open>Parsing: what \<^verbatim>\<open>readContent\<close> returns\<close>






text \<open>Reading a file of short lines without carriage returns and line feeds inside.\<close>

lemma Split_append_separator:
  "sep \<notin> set l \<Longrightarrow> Split (l @ sep # rest) sep = l # Split rest sep"
  by (induction l) auto

lemma raw_lines_file_of_lines:
  "\<forall>l \<in> set ls. CHR 0x0A \<notin> set l \<Longrightarrow> raw_lines (file_of_lines ls) = ls"
proof -
  assume a: "\<forall>l \<in> set ls. CHR 0x0A \<notin> set l"
  then have "Split (file_of_lines ls) (CHR 0x0A) = ls @ [[]]"
    by (induction ls) (simp_all add: file_of_lines_def Split_append_separator)
  then show ?thesis by (simp add: raw_lines_def)
qed

text \<open>A line of 65536 bytes ends the parsing in silence, as an empty line does: the
  mismatched line behind it is not read.\<close>

lemma long_line_stops_parsing:
  assumes "x \<noteq> CHR 0x0A"
  shows "readContent (file_of_lines [''a,b'', replicate 65536 x, ''c'']) = Inr [[''a'', ''b'']]"
proof -
  have "\<forall>l \<in> set [''a,b'', replicate 65536 x, ''c'']. CHR 0x0A \<notin> set l"
    using assms by auto
  then have "raw_lines (file_of_lines [''a,b'', replicate 65536 x, ''c''])
      = [''a,b'', replicate 65536 x, ''c'']"
    by (rule raw_lines_file_of_lines)
  then show ?thesis
    by (simp add: readContent_def Scan_def dropCR_def MaxScanTokenSize_def)
qed

section \<open>Directory mode: no row reaches the merged stream\<close>

lemma readFiles_forwarders: "forwarders (readFiles s c) = forwarders s"
  by (simp add: readFiles_def)

lemma fold_readFiles_kept:
  "forwarders (fold (\<lambda>i s. readFiles s (g i)) is s) = forwarders s \<and>
   merged (fold (\<lambda>i s. readFiles s (g i)) is s) = merged s \<and>
   merged_closed (fold (\<lambda>i s. readFiles s (g i)) is s) = merged_closed s"
  by (induction "is" arbitrary: s) (simp_all add: readFiles_def)

lemma fileReadinStage_stuck: "stuck n (fileReadinStage fnames n)"
  by (simp add: stuck_def fileReadinStage_def Let_def fold_readFiles_kept list_all_iff)

lemma stuck_forwarder:
  "stuck n s \<Longrightarrow> j < length (forwarders s) \<Longrightarrow>
   f_chan (forwarders s ! j) = None \<and> f_holding (forwarders s ! j) = None"
  by (simp add: stuck_def list_all_length)

lemma step_stuck:
  assumes "step files s s'" and "stuck n s" and "0 < n"
  shows "stuck n s'"
  using assms(1)
proof (cases rule: step.cases)
  case (take_file i fn rest ls rows)
  with assms(2) show ?thesis by (simp add: stuck_def)
next
  case (open_fails i fn rest e)
  with assms(2) show ?thesis by (simp add: stuck_def)
next
  case (parse_fails i fn rest ls e)
  with assms(2) show ?thesis by (simp add: stuck_def)
next
  case (hand_over i line rows c j)
  from stuck_forwarder[OF assms(2) \<open>j < length (forwarders s)\<close>]
    \<open>f_chan (forwarders s ! j) = Some c\<close>
  show ?thesis by simp
next
  case (forward j line)
  from stuck_forwarder[OF assms(2) \<open>j < length (forwarders s)\<close>]
    \<open>f_holding (forwarders s ! j) = Some line\<close>
  show ?thesis by simp
next
  case (drained j c)
  from stuck_forwarder[OF assms(2) \<open>j < length (forwarders s)\<close>]
    \<open>f_chan (forwarders s ! j) = Some c\<close>
  show ?thesis by simp
next
  case close_merged
  with assms(2,3) show ?thesis by (simp add: stuck_def)
qed

lemma scenario_D_state:
  "scenario_D =
     \<lparr>names_left = [''f1'', ''f2'', ''f3''], next_chan = 3, closed_chans = [],
      readers = [\<lparr>r_chan = Some 0, r_pending = []\<rparr>, \<lparr>r_chan = Some 1, r_pending = []\<rparr>,
                 \<lparr>r_chan = Some 2, r_pending = []\<rparr>],
      forwarders = [\<lparr>f_chan = None, f_holding = None, f_done = False\<rparr>,
                    \<lparr>f_chan = None, f_holding = None, f_done = False\<rparr>,
                    \<lparr>f_chan = None, f_holding = None, f_done = False\<rparr>],
      wg = 3, merged = [], merged_closed = False, halted = None\<rparr>"
  by (simp add: scenario_D_def fileReadinStage_def readFiles_def Let_def upt_rec numeral_3_eq_3)

lemma scenario_D_reaches_blocked:
  "rtranclp (step two_row_files) scenario_D scenario_D_blocked"
proof -
  let ?r = "\<lambda>c rows. \<lparr>r_chan = Some c, r_pending = rows\<rparr>"
  let ?st = "\<lambda>names rs. scenario_D\<lparr>names_left := names, readers := rs\<rparr>"
  let ?s1 = "?st [''f2'', ''f3''] [?r 0 [[''b'', ''1''], [''a'', ''2'']], ?r 1 [], ?r 2 []]"
  let ?s2 = "?st [''f3''] [?r 0 [[''b'', ''1''], [''a'', ''2'']], ?r 1 [[''d'', ''3''], [''c'', ''4'']], ?r 2 []]"
  have read_short: "readContent (file_of_lines [[a, CHR '','', b], [c, CHR '','', d]])
      = Inr [Split [a, CHR '','', b] CHR '','', Split [c, CHR '','', d] CHR '','']"
    if "a \<noteq> CHR 0x0A" "b \<noteq> CHR 0x0A" "c \<noteq> CHR 0x0A" "d \<noteq> CHR 0x0A"
       "a \<noteq> CHR '',''" "b \<noteq> CHR '',''" "c \<noteq> CHR '',''" "d \<noteq> CHR '',''"
       "b \<noteq> CHR 0x0D" "d \<noteq> CHR 0x0D" for a b c d
    using that
    by (simp add: readContent_def Scan_def raw_lines_file_of_lines dropCR_def
        MaxScanTokenSize_def)
  have "step two_row_files scenario_D
          (scenario_D\<lparr>names_left := [''f2'', ''f3''],
             readers := (readers scenario_D)[0 := (readers scenario_D ! 0)
                \<lparr>r_pending := [[''b'', ''1''], [''a'', ''2'']]\<rparr>]\<rparr>)"
    by (rule take_file[where fn = "''f1''" and f = "file_of_lines [''b,1'', ''a,2'']"])
       (simp_all add: scenario_D_state two_row_files_def read_short)
  then have a: "step two_row_files scenario_D ?s1"
    by (simp add: scenario_D_state)
  have "step two_row_files ?s1
          (?s1\<lparr>names_left := [''f3''],
             readers := (readers ?s1)[1 := (readers ?s1 ! 1)
                \<lparr>r_pending := [[''d'', ''3''], [''c'', ''4'']]\<rparr>]\<rparr>)"
    by (rule take_file[where fn = "''f2''" and f = "file_of_lines [''d,3'', ''c,4'']"])
       (simp_all add: scenario_D_state two_row_files_def read_short)
  then have b: "step two_row_files ?s1 ?s2"
    by (simp add: scenario_D_state)
  have "step two_row_files ?s2
          (?s2\<lparr>names_left := [],
             readers := (readers ?s2)[2 := (readers ?s2 ! 2)
                \<lparr>r_pending := [[''f'', ''5''], [''e'', ''6'']]\<rparr>]\<rparr>)"
    by (rule take_file[where fn = "''f3''" and f = "file_of_lines [''f,5'', ''e,6'']"])
       (simp_all add: scenario_D_state two_row_files_def read_short)
  then have c: "step two_row_files ?s2 scenario_D_blocked"
    by (simp add: scenario_D_state scenario_D_blocked_def)
  from a b c show ?thesis by (meson rtranclp.rtrancl_into_rtrancl rtranclp.rtrancl_refl)
qed

text \<open>In the blocked state every goroutine waits: nothing can happen any more.\<close>

lemma scenario_D_blocked_deadlock: "\<not> step two_row_files scenario_D_blocked s'"
proof
  assume "step two_row_files scenario_D_blocked s'"
  then show False
    by (cases rule: step.cases)
       (auto simp: scenario_D_blocked_def scenario_D_state nth_Cons' split: if_splits)
qed

section \<open>The sort engine rearranges its input\<close>

text \<open>Whenever the sort engine returns, the result is a rearrangement of its input:
  of the whole buffer for selector 1, of the rows after the header offset for selector 2.
  It returns for both selectors when there is a row after the header offset and all
  those rows have the field.\<close>

lemma sortContent_rearranges:
  assumes "sort_Slice_contract srt"
  shows "sortContent srt buff header field reverse 1 s = Inr out \<Longrightarrow>
           mset out = mset buff \<and> length out = length buff"
    and "sortContent srt buff header field reverse 2 [] = Inr out \<Longrightarrow>
           mset out = mset (drop (offset header) buff) \<and>
           length out = length buff - offset header"
proof -
  let ?h = "offset header"
  assume "sortContent srt buff header field reverse 1 s = Inr out"
  then have out: "out = take ?h buff @ srt (less_rows field reverse) (drop ?h buff)"
    by (auto simp: sortContent_compare split: if_splits)
  have "mset out = mset (take ?h buff) + mset (drop ?h buff)"
    by (simp add: out contract_sorted(1)[OF assms])
  also have "\<dots> = mset (take ?h buff @ drop ?h buff)" by (simp only: mset_append)
  also have "\<dots> = mset buff" by (simp only: append_take_drop_id)
  finally have "mset out = mset buff" .
  then show "mset out = mset buff \<and> length out = length buff"
    using mset_eq_length by blast
next
  assume "sortContent srt buff header field reverse 2 [] = Inr out"
  then have "out = sort_key (field_key field) (rev (drop (offset header) buff))"
    by (auto simp: sortContent_tree split: if_splits)
  then show "mset out = mset (drop (offset header) buff) \<and>
           length out = length buff - offset header"
    by simp
qed

lemma sortContent_returns:
  assumes "drop (offset header) buff \<noteq> []"
    and "\<forall>r \<in> set (drop (offset header) buff). in_range r field"
    and "sortAlgorithm = 1 \<or> sortAlgorithm = 2"
  shows "\<exists>out. sortContent srt buff header field reverse sortAlgorithm s = Inr out"
proof -
  from assms(1) have "offset header \<le> length buff" by (cases "offset header \<le> length buff") simp_all
  with assms show ?thesis
    by (auto simp: sortContent_compare sortContent_tree)
qed

section \<open>Sorting a sorted collection\<close>

text \<open>The contract of the library sort leaves the order of rows with equal keys open:
  the sorter that runs the insertion sort on the reversed slice keeps the contract and
  exchanges two rows of equal key that were in order.\<close>

lemma tie_reversing_sort_contract: "sort_Slice_contract tie_reversing_sort"
  using insertionSort_contract
  unfolding sort_Slice_contract_def tie_reversing_sort_def
  by (metis mset_rev)

lemma contract_leaves_ties_open:
  "sort_Slice_contract tie_reversing_sort \<and>
   sortContent tie_reversing_sort [[''a'', ''1''], [''a'', ''2'']] False 0 False 1 []
     = Inr [[''a'', ''2''], [''a'', ''1'']]"
  by (simp add: tie_reversing_sort_contract)
     (simp add: sortContent_def tie_reversing_sort_def insertionSort_def less_rows_def in_range_def)

text \<open>Tree sort puts rows that were in descending order, as the reverse flag asks for,
  into ascending order, and it returns the rows after the header without the header.\<close>

lemma tree_sort_ignores_direction_and_header:
  "sortContent insertionSort [[''b'', ''1''], [''a'', ''2'']] False 0 True 2 []
     = Inr [[''a'', ''2''], [''b'', ''1'']] \<and>
   sortContent insertionSort [[''id'', ''val''], [''a'', ''2''], [''b'', ''1'']] True 0 False 2 []
     = Inr [[''a'', ''2''], [''b'', ''1'']]"
  by (simp add: sortContent_def Tree_insert_def index_def in_range_def)

text \<open>The insertion sort moves no row of a slice that is in order already.\<close>

lemma insert_left_front:
  "acc = [] \<or> \<not> lt x (hd acc) \<Longrightarrow> insert_left lt x acc = x # acc"
  by (cases acc) auto

lemma fold_insert_left_ordered:
  "sorted_wrt (\<lambda>a b. \<not> lt b a) (rev acc @ xs) \<Longrightarrow>
   fold (insert_left lt) xs acc = rev xs @ acc"
proof (induction xs arbitrary: acc)
  case Nil
  then show ?case by simp
next
  case (Cons x xs)
  have front: "acc = [] \<or> \<not> lt x (hd acc)"
  proof (cases acc)
    case Nil
    then show ?thesis by simp
  next
    case (Cons y ys)
    with Cons.prems have "\<not> lt x y" by (simp add: sorted_wrt_append)
    with Cons show ?thesis by simp
  qed
  then have step: "insert_left lt x acc = x # acc" by (rule insert_left_front)
  from Cons.prems have "sorted_wrt (\<lambda>a b. \<not> lt b a) (rev (x # acc) @ xs)" by simp
  from Cons.IH[OF this] step show ?case by simp
qed

lemma insertionSort_ordered_fixed:
  "sorted_wrt (\<lambda>a b. \<not> lt b a) xs \<Longrightarrow> insertionSort lt xs = xs"
  using fold_insert_left_ordered[of lt "[]" xs] by (simp add: insertionSort_def)

text \<open>Two ordered arrangements of the same rows show the same sequence of keys.\<close>

lemma sorted_same_keys:
  fixes k :: "'a \<Rightarrow> 'b::linorder"
  assumes "mset ys = mset xs" and "sorted (map k xs)" and "sorted (map k ys)"
  shows "map k ys = map k xs"
proof -
  have m: "mset (map k ys) = mset (map k xs)" using assms(1) by simp
  have "sort (map k xs) = map k ys" by (rule properties_for_sort[OF m assms(3)])
  moreover have "sort (map k xs) = map k xs" by (rule properties_for_sort[OF refl assms(2)])
  ultimately show ?thesis by simp
qed

lemma less_rows_not_key:
  "(\<lambda>a b. \<not> less_rows f False b a) = (\<lambda>a b. field_key f a \<le> field_key f b)"
  "(\<lambda>a b. \<not> less_rows f True b a) = (\<lambda>a b. field_key f b \<le> field_key f a)"
  by (simp_all add: fun_eq_iff less_rows_def field_key_def not_less)

lemma in_order_keys:
  "sorted_wrt (\<lambda>a b. \<not> less_rows f False b a) xs \<longleftrightarrow> sorted (map (field_key f) xs)"
  "sorted_wrt (\<lambda>a b. \<not> less_rows f True b a) xs \<longleftrightarrow> sorted (map (field_key f) (rev xs))"
  by (simp_all add: less_rows_not_key sorted_map sorted_wrt_rev)

lemma contract_keeps_keys:
  assumes c: "sort_Slice_contract srt"
    and o: "sorted_wrt (\<lambda>a b. \<not> less_rows f rv b a) xs"
  shows "map (field_key f) (srt (less_rows f rv) xs) = map (field_key f) xs"
proof -
  let ?ys = "srt (less_rows f rv) xs"
  have m: "mset ?ys = mset xs" by (rule contract_sorted(1)[OF c])
  have oy: "sorted_wrt (\<lambda>a b. \<not> less_rows f rv b a) ?ys" by (rule contract_sorted(4)[OF c])
  show ?thesis
  proof (cases rv)
    case False
    with o oy have "sorted (map (field_key f) xs)" "sorted (map (field_key f) ?ys)"
      by (simp_all add: in_order_keys)
    from sorted_same_keys[OF m this] show ?thesis .
  next
    case True
    with o oy have "sorted (map (field_key f) (rev xs)) \<and> sorted (map (field_key f) (rev ?ys))"
      by (simp add: in_order_keys)
    then have "map (field_key f) (rev ?ys) = map (field_key f) (rev xs)"
      using m by (intro sorted_same_keys) simp_all
    then have "rev (map (field_key f) ?ys) = rev (map (field_key f) xs)"
      by (simp only: rev_map)
    then show ?thesis by simp
  qed
qed

lemma index_map_key:
  "\<forall>r \<in> set xs. in_range r f \<Longrightarrow>
   map (\<lambda>r. index r f) xs = map (\<lambda>r. Inr (field_key f r)) xs"
  by (simp add: index_def field_key_def)

section \<open>The claims\<close>

subsection \<open>C1: the output is a rearrangement of the input\<close>

text \<open>
  C1.  Every well-formed input should come out as a rearrangement of itself, and in
  tree-sort mode with header exclusion as a rearrangement of the input without its
  header.  For an input that consists of the header row alone, tree-sort mode with header
  exclusion should therefore return the empty collection.  The program does not: no row
  is inserted, the root stays nil, and \<^verbatim>\<open>t.root.rewriteTree()\<close> dereferences it.  (With
  at least one row after the header offset the result is the rearrangement described,
  see \<open>sortContent_rearranges\<close> and \<open>sortContent_returns\<close>.)
\<close>

theorem header_only_tree_sort_panics:
  "sortContent srt [hdr] True field reverse 2 s = Inl NilPointerDereference"
  by (simp add: sortContent_def)

subsection \<open>C4: the empty input\<close>

text \<open>
  C4.  An empty input should leave the output empty, without a fatal error, in both
  modes.  In tree-sort mode the program calls \<^verbatim>\<open>rewriteTree\<close> on the nil root and panics,
  whatever the other settings; in comparison-sort mode with header exclusion the slice
  expression \<^verbatim>\<open>buff[1:]\<close> panics on the empty buffer.
\<close>

theorem empty_input_panics:
  "sortContent srt [] header field reverse 2 s = Inl NilPointerDereference \<and>
   sortContent srt [] True field reverse 1 s = Inl SliceBoundsOutOfRange"
  by (simp add: sortContent_def)

subsection \<open>C5: selectors other than 1 and 2\<close>

text \<open>
  C5, as amended.  For a selector other than 1 and 2 the sort engine does nothing and
  reports nothing: the global \<^verbatim>\<open>sorted\<close> keeps the value it had before the call.  In
  \<^verbatim>\<open>main\<close> that value is the initial nil slice, so the emitter receives the empty
  collection; the rows of the buffer are not passed on.
\<close>

theorem other_selector_keeps_sorted:
  "sortAlgorithm \<noteq> 1 \<Longrightarrow> sortAlgorithm \<noteq> 2 \<Longrightarrow>
   sortContent srt buff header field reverse sortAlgorithm s = Inr s"
  by (simp add: sortContent_def)

theorem other_selector_keeps_sorted_witness:
  "(3::int) \<noteq> 1 \<and> (3::int) \<noteq> 2 \<and>
   sortContent insertionSort [[''b''], [''a'']] False 0 False 3 [] = Inr []"
  using other_selector_keeps_sorted[of 3 insertionSort "[[''b''], [''a'']]" False 0 False "[]"]
  by simp

text \<open>The claim as stated, that the unsorted buffer is what the emitter receives, fails
  on a buffer of two rows.\<close>

theorem other_selector_drops_buffer:
  "sortContent insertionSort [[''b''], [''a'']] False 0 False 3 [] \<noteq> Inr [[''b''], [''a'']]"
  by (simp add: sortContent_def)

subsection \<open>C6: tree sort is ascending whatever the reverse flag\<close>

text \<open>
  C6.  In tree-sort mode the reverse flag has no influence on the result, and in every
  result each row's field is at most the field of the row after it.  A result exists
  whenever there is a row after the header offset and every such row has the field.
\<close>

theorem tree_sort_ascending_whatever_reverse:
  "sortContent srt buff header field True 2 [] = sortContent srt buff header field False 2 [] \<and>
   (\<forall>out i. sortContent srt buff header field reverse 2 [] = Inr out \<and> Suc i < length out \<longrightarrow>
      (\<exists>a b. index (out ! i) field = Inr a \<and> index (out ! Suc i) field = Inr b \<and> a \<le> b)) \<and>
   (drop (offset header) buff \<noteq> [] \<and> (\<forall>r \<in> set (drop (offset header) buff). in_range r field) \<longrightarrow>
      (\<exists>out. sortContent srt buff header field reverse 2 [] = Inr out))"
proof (intro conjI allI impI)
  show "sortContent srt buff header field True 2 [] = sortContent srt buff header field False 2 []"
    by (simp only: sortContent_tree)
next
  fix out i
  assume h: "sortContent srt buff header field reverse 2 [] = Inr out \<and> Suc i < length out"
  define sub where "sub = drop (offset header) buff"
  from h have out: "out = sort_key (field_key field) (rev sub)"
    and ok: "\<not> (2 \<le> length sub \<and> (\<exists>r \<in> set sub. \<not> in_range r field))"
    by (auto simp: sortContent_tree sub_def split: if_splits)
  from h out have "2 \<le> length sub" by simp
  with ok have rng: "\<forall>r \<in> set out. in_range r field" by (simp add: out)
  from h have i: "i < length out" "Suc i < length out" by simp_all
  have "sorted (map (field_key field) out)" by (simp add: out)
  then have "map (field_key field) out ! i \<le> map (field_key field) out ! Suc i"
    using i by (intro sorted_nth_mono) simp_all
  then have "field_key field (out ! i) \<le> field_key field (out ! Suc i)"
    using i by simp
  moreover have "in_range (out ! i) field" "in_range (out ! Suc i) field"
    using rng i by simp_all
  ultimately show "\<exists>a b. index (out ! i) field = Inr a \<and> index (out ! Suc i) field = Inr b \<and> a \<le> b"
    by (simp add: index_Inr_iff)
next
  assume "drop (offset header) buff \<noteq> [] \<and> (\<forall>r \<in> set (drop (offset header) buff). in_range r field)"
  then show "\<exists>out. sortContent srt buff header field reverse 2 [] = Inr out"
    by (simp add: sortContent_tree)
qed

theorem tree_sort_ascending_whatever_reverse_witness:
  "sortContent insertionSort [[''b'', ''1''], [''a'', ''2''], [''c'', ''3'']] False 0 True 2 []
     = Inr [[''a'', ''2''], [''b'', ''1''], [''c'', ''3'']] \<and>
   sortContent insertionSort [[''b'', ''1''], [''a'', ''2''], [''c'', ''3'']] False 0 True 2 []
     = sortContent insertionSort [[''b'', ''1''], [''a'', ''2''], [''c'', ''3'']] False 0 False 2 [] \<and>
   (\<exists>a b. index ([[''a'', ''2''], [''b'', ''1''], [''c'', ''3'']] ! 0) 0 = Inr a \<and>
          index ([[''a'', ''2''], [''b'', ''1''], [''c'', ''3'']] ! Suc 0) 0 = Inr b \<and> a \<le> b)"
proof -
  let ?buff = "[[''b'', ''1''], [''a'', ''2''], [''c'', ''3'']]"
  let ?out = "[[''a'', ''2''], [''b'', ''1''], [''c'', ''3'']]"
  have run: "sortContent insertionSort ?buff False 0 True 2 [] = Inr ?out"
    by (simp add: sortContent_def Tree_insert_def index_def in_range_def)
  from tree_sort_ascending_whatever_reverse[of insertionSort ?buff False 0 True]
  have same: "sortContent insertionSort ?buff False 0 True 2 [] = sortContent insertionSort ?buff False 0 False 2 []"
    and ord: "\<And>out i. sortContent insertionSort ?buff False 0 True 2 [] = Inr out \<Longrightarrow> Suc i < length out \<Longrightarrow>
      (\<exists>a b. index (out ! i) 0 = Inr a \<and> index (out ! Suc i) 0 = Inr b \<and> a \<le> b)"
    by blast+
  from ord[OF run, of 0] run same show ?thesis by simp
qed

subsection \<open>C2: comparison sort orders adjacent rows\<close>

text \<open>
  C2.  In comparison-sort mode, with a library sort that keeps its contract, every result
  is ordered from the header offset on: each row there has the field, and its field is at
  most (with the reverse flag: at least) the field of the row after it, in the
  lexicographic order of strings.  A result exists whenever the buffer is long enough
  for the header offset and every row after the offset has the field.
\<close>


theorem comparison_sort_adjacent_ordered:
  assumes "sort_Slice_contract srt"
  shows "(\<forall>out i. sortContent srt buff header field reverse 1 s = Inr out \<and>
            offset header \<le> i \<and> Suc i < length out \<longrightarrow>
            (\<exists>a b. index (out ! i) field = Inr a \<and> index (out ! Suc i) field = Inr b \<and>
                   (if reverse then b \<le> a else a \<le> b))) \<and>
         (offset header \<le> length buff \<and>
            (\<forall>r \<in> set (drop (offset header) buff). in_range r field) \<longrightarrow>
            (\<exists>out. sortContent srt buff header field reverse 1 s = Inr out))"
proof -
  have ordered: "\<exists>a b. index (out ! i) field = Inr a \<and> index (out ! Suc i) field = Inr b \<and>
                   (if reverse then b \<le> a else a \<le> b)"
    if run: "sortContent srt buff header field reverse 1 s = Inr out"
      and lo: "offset header \<le> i" and hi: "Suc i < length out" for out i
  proof -
    define sub where "sub = drop (offset header) buff"
    define ys where "ys = srt (less_rows field reverse) sub"
    from run have len: "offset header \<le> length buff"
      and ok: "\<not> (2 \<le> length sub \<and> (\<exists>r \<in> set sub. \<not> in_range r field))"
      and out: "out = take (offset header) buff @ ys"
      by (auto simp: sortContent_compare sub_def ys_def split: if_splits)
    have ly: "length ys = length sub" and sy: "set ys = set sub"
      unfolding ys_def by (rule contract_sorted[OF assms])+
    define j where "j = i - offset header"
    from lo hi len out have j: "Suc j < length ys" "i = offset header + j"
      by (auto simp: j_def)
    then have "2 \<le> length sub" using ly by simp
    with ok sy have rng: "\<forall>r \<in> set ys. in_range r field" by simp
    have at: "out ! i = ys ! j" "out ! Suc i = ys ! Suc j"
      using j len by (simp_all add: out nth_append)
    have "sorted_wrt (\<lambda>a b. \<not> less_rows field reverse b a) ys"
      unfolding ys_def by (rule contract_sorted(4)[OF assms])
    then have nl: "\<not> less_rows field reverse (ys ! Suc j) (ys ! j)"
      using j(1) by (simp add: sorted_wrt_iff_nth_less)
    have cmp: "if reverse then field_key field (ys ! Suc j) \<le> field_key field (ys ! j)
               else field_key field (ys ! j) \<le> field_key field (ys ! Suc j)"
    proof (cases reverse)
      case True
      with nl show ?thesis by (simp add: less_rows_key not_less)
    next
      case False
      with nl show ?thesis by (simp add: less_rows_key not_less)
    qed
    have "in_range (ys ! j) field" "in_range (ys ! Suc j) field"
      using rng j(1) by simp_all
    with cmp show ?thesis
      by (simp add: at index_Inr_iff)
  qed
  have total: "\<exists>out. sortContent srt buff header field reverse 1 s = Inr out"
    if "offset header \<le> length buff"
      and "\<forall>r \<in> set (drop (offset header) buff). in_range r field"
    using that by (simp add: sortContent_compare)
  from ordered total show ?thesis by blast
qed

theorem comparison_sort_adjacent_ordered_witness:
  "sort_Slice_contract insertionSort \<and>
   sortContent insertionSort [[''b'', ''1''], [''a'', ''2''], [''c'', ''3'']] False 0 True 1 []
     = Inr [[''c'', ''3''], [''b'', ''1''], [''a'', ''2'']] \<and>
   offset False \<le> 0 \<and> Suc 0 < length [[''c'', ''3''], [''b'', ''1''], [''a'', ''2'']] \<and>
   (\<exists>a b. index ([[''c'', ''3''], [''b'', ''1''], [''a'', ''2'']] ! 0) 0 = Inr a \<and>
          index ([[''c'', ''3''], [''b'', ''1''], [''a'', ''2'']] ! Suc 0) 0 = Inr b \<and> b \<le> a)"
proof -
  let ?buff = "[[''b'', ''1''], [''a'', ''2''], [''c'', ''3'']]"
  let ?out = "[[''c'', ''3''], [''b'', ''1''], [''a'', ''2'']]"
  have run: "sortContent insertionSort ?buff False 0 True 1 [] = Inr ?out"
    by (simp add: sortContent_def insertionSort_def less_rows_def in_range_def)
  have off: "offset False \<le> 0" by (simp add: offset_def)
  have len: "Suc 0 < length ?out" by simp
  note inst = comparison_sort_adjacent_ordered[OF insertionSort_contract, of ?buff False 0 True "[]"]
  from inst[THEN conjunct1, rule_format, of ?out 0] run off len
  have "\<exists>a b. index (?out ! 0) 0 = Inr a \<and> index (?out ! Suc 0) 0 = Inr b \<and>
           (if True then b \<le> a else a \<le> b)"
    by blast
  then have "\<exists>a b. index (?out ! 0) 0 = Inr a \<and> index (?out ! Suc 0) 0 = Inr b \<and> b \<le> a"
    by simp
  with insertionSort_contract run off len show ?thesis by (intro conjI)
qed

subsection \<open>C8: comparison sort keeps the header in place\<close>

text \<open>
  C8.  In comparison-sort mode with header exclusion, with a library sort that keeps its
  contract, every result for a non-empty buffer has the length of the buffer, the same
  first row at position 0, and after it a rearrangement of the other rows: the buffer has
  been sorted in place behind its header.  A result exists whenever the rows behind the
  header have the field.  The header \<open>["id","val"]\<close> followed by \<open>["b","1"]\<close>, \<open>["a","2"]\<close> and
  sorted on field 0 gives \<open>["id","val"]\<close>, \<open>["a","2"]\<close>, \<open>["b","1"]\<close>.
\<close>


theorem comparison_sort_keeps_header:
  assumes "sort_Slice_contract srt"
  shows "(\<forall>out. buff \<noteq> [] \<and> sortContent srt buff True field reverse 1 s = Inr out \<longrightarrow>
            length out = length buff \<and> out ! 0 = buff ! 0 \<and>
            mset (drop 1 out) = mset (drop 1 buff)) \<and>
         (buff \<noteq> [] \<and> (\<forall>r \<in> set (drop 1 buff). in_range r field) \<longrightarrow>
            (\<exists>out. sortContent srt buff True field reverse 1 s = Inr out)) \<and>
         sortContent srt [[''id'', ''val''], [''b'', ''1''], [''a'', ''2'']] True 0 False 1 []
           = Inr [[''id'', ''val''], [''a'', ''2''], [''b'', ''1'']]"
proof -
  have kept: "length out = length buff \<and> out ! 0 = buff ! 0 \<and>
            mset (drop 1 out) = mset (drop 1 buff)"
    if ne: "buff \<noteq> []" and run: "sortContent srt buff True field reverse 1 s = Inr out" for out
  proof -
    from ne obtain hd' tl' where b: "buff = hd' # tl'" by (cases buff) auto
    with run have out: "out = hd' # srt (less_rows field reverse) tl'"
      by (auto simp: sortContent_compare offset_def split: if_splits)
    show ?thesis
      using contract_sorted(1,2)[OF assms, of "less_rows field reverse" tl'] by (simp add: out b)
  qed
  have total: "\<exists>out. sortContent srt buff True field reverse 1 s = Inr out"
    if "buff \<noteq> []" and "\<forall>r \<in> set (drop 1 buff). in_range r field"
    using that by (cases buff) (simp_all add: sortContent_compare offset_def)
  have "srt (less_rows 0 False) [[''b'', ''1''], [''a'', ''2'']] = [[''a'', ''2''], [''b'', ''1'']]"
    by (rule contract_sorts_to[OF assms]) (simp_all add: less_rows_def)
  then have example:
    "sortContent srt [[''id'', ''val''], [''b'', ''1''], [''a'', ''2'']] True 0 False 1 []
           = Inr [[''id'', ''val''], [''a'', ''2''], [''b'', ''1'']]"
    by (simp add: sortContent_compare offset_def in_range_def)
  from kept total example show ?thesis by blast
qed

theorem comparison_sort_keeps_header_witness:
  "sort_Slice_contract insertionSort \<and>
   [[''h'', ''x''], [''b'', ''1''], [''a'', ''2'']] \<noteq> [] \<and>
   sortContent insertionSort [[''h'', ''x''], [''b'', ''1''], [''a'', ''2'']] True 1 True 1 []
     = Inr [[''h'', ''x''], [''a'', ''2''], [''b'', ''1'']] \<and>
   length [[''h'', ''x''], [''a'', ''2''], [''b'', ''1'']]
     = length [[''h'', ''x''], [''b'', ''1''], [''a'', ''2'']] \<and>
   [[''h'', ''x''], [''a'', ''2''], [''b'', ''1'']] ! 0 = [[''h'', ''x''], [''b'', ''1''], [''a'', ''2'']] ! 0 \<and>
   mset (drop 1 [[''h'', ''x''], [''a'', ''2''], [''b'', ''1'']])
     = mset (drop 1 [[''h'', ''x''], [''b'', ''1''], [''a'', ''2'']]) \<and>
   sortContent insertionSort [[''id'', ''val''], [''b'', ''1''], [''a'', ''2'']] True 0 False 1 []
     = Inr [[''id'', ''val''], [''a'', ''2''], [''b'', ''1'']]"
proof -
  let ?buff = "[[''h'', ''x''], [''b'', ''1''], [''a'', ''2'']]"
  let ?out = "[[''h'', ''x''], [''a'', ''2''], [''b'', ''1'']]"
  have run: "sortContent insertionSort ?buff True 1 True 1 [] = Inr ?out"
    by (simp add: sortContent_def insertionSort_def less_rows_def in_range_def)
  have ne: "?buff \<noteq> []" by simp
  note inst = comparison_sort_keeps_header[OF insertionSort_contract, of ?buff 1 True "[]"]
  from inst[THEN conjunct1, rule_format, of ?out] ne run
  have kept: "length ?out = length ?buff \<and> ?out ! 0 = ?buff ! 0 \<and>
              mset (drop 1 ?out) = mset (drop 1 ?buff)"
    by blast
  note example = inst[THEN conjunct2, THEN conjunct2]
  from insertionSort_contract ne run kept example show ?thesis by (intro conjI) blast+
qed

subsection \<open>C7: sorting a sorted collection\<close>

text \<open>
  C7 as stated fails in tree-sort mode: two rows with the same key, in ascending order
  on field 0, come out in the opposite order, so a second run undoes the first.
\<close>

theorem sorted_input_with_ties_is_reordered:
  "sorted (map (field_key 0) [[''a'', ''1''], [''a'', ''2'']]) \<and>
   sortContent insertionSort [[''a'', ''1''], [''a'', ''2'']] False 0 False 2 []
     = Inr [[''a'', ''2''], [''a'', ''1'']] \<and>
   [[''a'', ''2''], [''a'', ''1'']] \<noteq> [[''a'', ''1''], [''a'', ''2'']]"
  by (simp add: sortContent_def Tree_insert_def index_def in_range_def field_key_def)

text \<open>
  C7, as amended.  Take a collection in which every row after the header offset has the
  field, and in which those rows are already in order on it: no row's field comes before
  the field of an earlier row in the direction sorted by.  Sorting it changes at most the
  order among rows with equal fields.
  \<^item> Comparison-sort mode, with a library sort that keeps its contract, the direction
    being that of the reverse flag and the buffer at least as long as the header offset:
    there is a result, it has the length of the buffer and the same rows in front of the
    header offset, and behind it a rearrangement of the same rows with the same sequence
    of fields; when these rows are in strict order, no two of them sharing a field, the
    result is the buffer itself.
  \<^item> Tree-sort mode, the direction being ascending whatever the reverse flag, with at
    least one row after the header offset: there is a result, it is a rearrangement of
    the rows after the header offset with the same sequence of fields; when these rows
    are in strict order, no two of them sharing a field, the result is exactly these rows.
  \<^item> Comparison-sort mode with the insertion sort as the library sort (what Go's
    \<^verbatim>\<open>sort.Slice\<close> runs on slices of at most twelve elements), under the conditions of
    the first item: the result is the buffer itself, rows with equal fields included.
  The tree-sort result is that of the program's one run, which starts from the empty
  \<^verbatim>\<open>sorted\<close>.  Nothing is said of a buffer shorter than the header offset in
  comparison-sort mode or without a row after the header offset in tree-sort mode.
\<close>

theorem sorted_input_changes_only_ties:
  assumes "sort_Slice_contract srt"
  shows
    "(offset header \<le> length buff \<and>
        (\<forall>r \<in> set (drop (offset header) buff). in_range r field) \<and>
        sorted_wrt (\<lambda>a b. \<not> less_rows field reverse b a) (drop (offset header) buff) \<longrightarrow>
        (\<exists>out. sortContent srt buff header field reverse 1 s = Inr out \<and>
           length out = length buff \<and>
           take (offset header) out = take (offset header) buff \<and>
           mset (drop (offset header) out) = mset (drop (offset header) buff) \<and>
           map (\<lambda>r. index r field) (drop (offset header) out)
             = map (\<lambda>r. index r field) (drop (offset header) buff) \<and>
           (sorted_wrt (less_rows field reverse) (drop (offset header) buff) \<longrightarrow> out = buff))) \<and>
     (drop (offset header) buff \<noteq> [] \<and>
        (\<forall>r \<in> set (drop (offset header) buff). in_range r field) \<and>
        sorted_wrt (\<lambda>a b. \<not> less_rows field False b a) (drop (offset header) buff) \<longrightarrow>
        (\<exists>out. sortContent srt buff header field reverse 2 [] = Inr out \<and>
           mset out = mset (drop (offset header) buff) \<and>
           map (\<lambda>r. index r field) out
             = map (\<lambda>r. index r field) (drop (offset header) buff) \<and>
           (sorted_wrt (less_rows field False) (drop (offset header) buff) \<longrightarrow>
              out = drop (offset header) buff))) \<and>
     (offset header \<le> length buff \<and>
        (\<forall>r \<in> set (drop (offset header) buff). in_range r field) \<and>
        sorted_wrt (\<lambda>a b. \<not> less_rows field reverse b a) (drop (offset header) buff) \<longrightarrow>
        sortContent insertionSort buff header field reverse 1 s = Inr buff)"
proof -
  let ?h = "offset header"
  let ?sub = "drop ?h buff"
  have cmp: "\<exists>out. sortContent srt buff header field reverse 1 s = Inr out \<and>
           length out = length buff \<and> take ?h out = take ?h buff \<and>
           mset (drop ?h out) = mset ?sub \<and>
           map (\<lambda>r. index r field) (drop ?h out) = map (\<lambda>r. index r field) ?sub \<and>
           (sorted_wrt (less_rows field reverse) ?sub \<longrightarrow> out = buff)"
    if len: "?h \<le> length buff" and rng: "\<forall>r \<in> set ?sub. in_range r field"
      and ord: "sorted_wrt (\<lambda>a b. \<not> less_rows field reverse b a) ?sub"
  proof -
    let ?ys = "srt (less_rows field reverse) ?sub"
    let ?out = "take ?h buff @ ?ys"
    have run: "sortContent srt buff header field reverse 1 s = Inr ?out"
      using len rng by (simp add: sortContent_compare)
    have ly: "length ?ys = length ?sub" and my: "mset ?ys = mset ?sub"
      and sy: "set ?ys = set ?sub"
      by (rule contract_sorted[OF assms])+
    have l: "length ?out = length buff" using len ly by simp
    have t: "take ?h ?out = take ?h buff" using len by simp
    have d: "drop ?h ?out = ?ys" using len by simp
    have ky: "map (field_key field) ?ys = map (field_key field) ?sub"
      by (rule contract_keeps_keys[OF assms ord])
    have "map (\<lambda>r. index r field) ?ys = map (\<lambda>r. Inr (field_key field r)) ?ys"
      using rng sy by (intro index_map_key) simp
    also have "\<dots> = map Inr (map (field_key field) ?ys)" by simp
    also have "\<dots> = map Inr (map (field_key field) ?sub)" by (simp only: ky)
    also have "\<dots> = map (\<lambda>r. Inr (field_key field r)) ?sub" by simp
    also have "\<dots> = map (\<lambda>r. index r field) ?sub"
      using rng by (simp add: index_map_key)
    finally have k: "map (\<lambda>r. index r field) ?ys = map (\<lambda>r. index r field) ?sub" .
    have st: "?out = buff" if "sorted_wrt (less_rows field reverse) ?sub"
      using contract_strictly_sorted_fixed[OF assms that] by simp
    from run l t d my k st show ?thesis by simp
  qed
  have tree: "\<exists>out. sortContent srt buff header field reverse 2 [] = Inr out \<and>
           mset out = mset ?sub \<and>
           map (\<lambda>r. index r field) out = map (\<lambda>r. index r field) ?sub \<and>
           (sorted_wrt (less_rows field False) ?sub \<longrightarrow> out = ?sub)"
    if ne: "?sub \<noteq> []" and rng: "\<forall>r \<in> set ?sub. in_range r field"
      and ord: "sorted_wrt (\<lambda>a b. \<not> less_rows field False b a) ?sub"
  proof -
    let ?ys = "sort_key (field_key field) (rev ?sub)"
    have run: "sortContent srt buff header field reverse 2 [] = Inr ?ys"
      using ne rng by (simp add: sortContent_tree)
    have my: "mset ?ys = mset ?sub" by simp
    have sy: "set ?ys = set ?sub" by simp
    have oy: "sorted (map (field_key field) ?ys)" by simp
    from ord have ox: "sorted (map (field_key field) ?sub)" by (simp add: in_order_keys)
    have ky: "map (field_key field) ?ys = map (field_key field) ?sub"
      by (rule sorted_same_keys[OF my ox oy])
    have "map (\<lambda>r. index r field) ?ys = map (\<lambda>r. Inr (field_key field r)) ?ys"
      using rng sy by (intro index_map_key) simp
    also have "\<dots> = map Inr (map (field_key field) ?ys)" by simp
    also have "\<dots> = map Inr (map (field_key field) ?sub)" by (simp only: ky)
    also have "\<dots> = map (\<lambda>r. Inr (field_key field r)) ?sub" by simp
    also have "\<dots> = map (\<lambda>r. index r field) ?sub"
      using rng by (simp add: index_map_key)
    finally have k: "map (\<lambda>r. index r field) ?ys = map (\<lambda>r. index r field) ?sub" .
    have st: "?ys = ?sub" if "sorted_wrt (less_rows field False) ?sub"
    proof -
      from that have a: "sorted_wrt (\<lambda>a b. field_key field a < field_key field b) ?sub"
        by (simp add: less_rows_key)
      show ?thesis by (rule strictly_sorted_unique[OF my a oy])
    qed
    from run my k st show ?thesis by simp
  qed
  have ins: "sortContent insertionSort buff header field reverse 1 s = Inr buff"
    if len: "?h \<le> length buff" and rng: "\<forall>r \<in> set ?sub. in_range r field"
      and ord: "sorted_wrt (\<lambda>a b. \<not> less_rows field reverse b a) ?sub"
  proof -
    have "insertionSort (less_rows field reverse) ?sub = ?sub"
      using ord by (rule insertionSort_ordered_fixed)
    with len rng show ?thesis by (simp add: sortContent_compare)
  qed
  from cmp tree ins show ?thesis by blast
qed

theorem sorted_input_changes_only_ties_witness:
  "sort_Slice_contract insertionSort \<and>
   offset True \<le> length [[''id'', ''val''], [''c'', ''3''], [''b'', ''1'']] \<and>
   in_range [''c'', ''3''] 0 \<and> in_range [''b'', ''1''] 0 \<and>
   sorted_wrt (\<lambda>a b. \<not> less_rows 0 True b a)
     (drop (offset True) [[''id'', ''val''], [''c'', ''3''], [''b'', ''1'']]) \<and>
   sorted_wrt (less_rows 0 True)
     (drop (offset True) [[''id'', ''val''], [''c'', ''3''], [''b'', ''1'']]) \<and>
   sortContent insertionSort [[''id'', ''val''], [''c'', ''3''], [''b'', ''1'']] True 0 True 1 []
     = Inr [[''id'', ''val''], [''c'', ''3''], [''b'', ''1'']] \<and>
   drop (offset False) [[''a'', ''2''], [''b'', ''1'']] \<noteq> [] \<and>
   in_range [''a'', ''2''] 0 \<and>
   sorted_wrt (\<lambda>a b. \<not> less_rows 0 False b a) (drop (offset False) [[''a'', ''2''], [''b'', ''1'']]) \<and>
   sorted_wrt (less_rows 0 False) (drop (offset False) [[''a'', ''2''], [''b'', ''1'']]) \<and>
   sortContent insertionSort [[''a'', ''2''], [''b'', ''1'']] False 0 True 2 []
     = Inr (drop (offset False) [[''a'', ''2''], [''b'', ''1'']]) \<and>
   offset False \<le> length [[''a'', ''1''], [''a'', ''2'']] \<and>
   in_range [''a'', ''1''] 0 \<and>
   sorted_wrt (\<lambda>a b. \<not> less_rows 0 False b a) (drop (offset False) [[''a'', ''1''], [''a'', ''2'']]) \<and>
   sortContent insertionSort [[''a'', ''1''], [''a'', ''2'']] False 0 False 1 []
     = Inr [[''a'', ''1''], [''a'', ''2'']]"
proof -
  let ?b3 = "[[''a'', ''1''], [''a'', ''2'']]"
  have g1: "offset False \<le> length ?b3" by (simp add: offset_def)
  have g2: "in_range [''a'', ''1''] 0" by (simp add: in_range_def)
  have g3: "sorted_wrt (\<lambda>a b. \<not> less_rows 0 False b a) (drop (offset False) ?b3)"
    by (simp add: offset_def less_rows_def)
  have r3: "\<forall>r \<in> set (drop (offset False) ?b3). in_range r 0"
    by (simp add: offset_def in_range_def)
  from sorted_input_changes_only_ties[OF insertionSort_contract, of False ?b3 0 False "[]",
      THEN conjunct2, THEN conjunct2, rule_format] g1 r3 g3
  have c: "sortContent insertionSort ?b3 False 0 False 1 [] = Inr ?b3" by blast
  let ?b1 = "[[''id'', ''val''], [''c'', ''3''], [''b'', ''1'']]"
  let ?b2 = "[[''a'', ''2''], [''b'', ''1'']]"
  have f1: "offset True \<le> length ?b1" by (simp add: offset_def)
  have f2: "in_range [''c'', ''3''] 0" "in_range [''b'', ''1''] 0" "in_range [''a'', ''2''] 0"
    by (simp_all add: in_range_def)
  have o1: "sorted_wrt (\<lambda>a b. \<not> less_rows 0 True b a) (drop (offset True) ?b1)"
    by (simp add: offset_def less_rows_def)
  have s1: "sorted_wrt (less_rows 0 True) (drop (offset True) ?b1)"
    by (simp add: offset_def less_rows_def)
  have f4: "drop (offset False) ?b2 \<noteq> []" by (simp add: offset_def)
  have o2: "sorted_wrt (\<lambda>a b. \<not> less_rows 0 False b a) (drop (offset False) ?b2)"
    by (simp add: offset_def less_rows_def)
  have s2: "sorted_wrt (less_rows 0 False) (drop (offset False) ?b2)"
    by (simp add: offset_def less_rows_def)
  have r1: "\<forall>r \<in> set (drop (offset True) ?b1). in_range r 0"
    and r2: "\<forall>r \<in> set (drop (offset False) ?b2). in_range r 0"
    by (simp_all add: offset_def in_range_def)
  from sorted_input_changes_only_ties[OF insertionSort_contract, of True ?b1 0 True "[]",
      THEN conjunct1, rule_format] f1 r1 o1
  obtain out1 where "sortContent insertionSort ?b1 True 0 True 1 [] = Inr out1"
    and "sorted_wrt (less_rows 0 True) (drop (offset True) ?b1) \<longrightarrow> out1 = ?b1"
    by blast
  with s1 have a: "sortContent insertionSort ?b1 True 0 True 1 [] = Inr ?b1" by simp
  from sorted_input_changes_only_ties[OF insertionSort_contract, of False ?b2 0 True,
      THEN conjunct2, rule_format] f4 r2 o2
  obtain out2 where "sortContent insertionSort ?b2 False 0 True 2 [] = Inr out2"
    and "sorted_wrt (less_rows 0 False) (drop (offset False) ?b2) \<longrightarrow>
           out2 = drop (offset False) ?b2"
    by blast
  with s2 have b: "sortContent insertionSort ?b2 False 0 True 2 [] = Inr (drop (offset False) ?b2)"
    by simp
  from insertionSort_contract f1 f2 o1 s1 a f4 o2 s2 b g1 g2 g3 c show ?thesis by (intro conjI)
qed

subsection \<open>C10: tree sort reverses rows with equal keys\<close>

text \<open>
  C10 as stated speaks of every pair of rows of the buffer.  With header exclusion the
  first row of the buffer is not inserted, so when it shares its key with a later row it
  does not occur after that row in the result: it does not occur at all.
\<close>

theorem header_row_with_equal_key_is_dropped:
  "sortContent insertionSort [[''k'', ''h''], [''k'', ''1'']] True 0 False 2 []
     = Inr [[''k'', ''1'']] \<and>
   index [''k'', ''h''] 0 = index [''k'', ''1''] 0 \<and>
   [''k'', ''h''] \<notin> set [[''k'', ''1'']]"
  by (simp add: sortContent_def Tree_insert_def index_def in_range_def)

text \<open>
  C10, as amended.  In tree-sort mode, for every two rows \<open>x\<close> and \<open>y\<close> among the rows that are
  inserted (the buffer from the header offset on) with equal values of the sort field:
  if \<open>x\<close> stands before \<open>y\<close> there, then \<open>y\<close> stands before \<open>x\<close> in the result.
\<close>

theorem tree_sort_reverses_ties:
  assumes "sortContent srt buff header field reverse 2 [] = Inr out"
    and "drop (offset header) buff = as @ x # bs @ y # cs"
    and "index x field = index y field"
  shows "\<exists>us vs ws. out = us @ y # vs @ x # ws"
proof -
  let ?sub = "drop (offset header) buff"
  from assms(1) have ok: "\<not> (2 \<le> length ?sub \<and> (\<exists>r \<in> set ?sub. \<not> in_range r field))"
    by (auto simp: sortContent_tree split: if_splits)
  have "2 \<le> length ?sub" by (simp add: assms(2))
  with ok have "in_range x field" "in_range y field" by (simp_all add: assms(2))
  with assms(3) have k: "field_key field y = field_key field x"
    by (simp add: index_def field_key_def)
  let ?P = "\<lambda>r. field_key field r = field_key field x"
  have "filter ?P out = rev (filter ?P ?sub)"
    by (rule tree_sort_equal_keys_reversed[OF assms(1)])
  also have "\<dots> = rev (filter ?P cs) @ y # rev (filter ?P bs) @ x # rev (filter ?P as)"
    by (simp add: assms(2) k)
  finally show ?thesis by (rule filter_two_in_order)
qed

theorem tree_sort_reverses_ties_witness:
  "sortContent insertionSort [[''k'', ''1''], [''j'', ''2''], [''k'', ''3'']] False 0 False 2 []
     = Inr [[''j'', ''2''], [''k'', ''3''], [''k'', ''1'']] \<and>
   drop (offset False) [[''k'', ''1''], [''j'', ''2''], [''k'', ''3'']]
     = [] @ [''k'', ''1''] # [[''j'', ''2'']] @ [''k'', ''3''] # [] \<and>
   index [''k'', ''1''] 0 = index [''k'', ''3''] 0 \<and>
   (\<exists>us vs ws. [[''j'', ''2''], [''k'', ''3''], [''k'', ''1'']]
       = us @ [''k'', ''3''] # vs @ [''k'', ''1''] # ws)"
proof -
  let ?buff = "[[''k'', ''1''], [''j'', ''2''], [''k'', ''3'']]"
  have run: "sortContent insertionSort ?buff False 0 False 2 []
       = Inr [[''j'', ''2''], [''k'', ''3''], [''k'', ''1'']]"
    by (simp add: sortContent_def Tree_insert_def index_def in_range_def)
  have sub: "drop (offset False) ?buff = [] @ [''k'', ''1''] # [[''j'', ''2'']] @ [''k'', ''3''] # []"
    by (simp add: offset_def)
  have key: "index [''k'', ''1''] 0 = index [''k'', ''3''] 0"
    by (simp add: index_def in_range_def)
  note concl = tree_sort_reverses_ties[OF run sub key]
  from run sub key concl show ?thesis by (intro conjI)
qed

subsection \<open>C9: lines of differing field count\<close>




subsection \<open>C3: the fan-in of the reader pool\<close>

text \<open>
  C3.  Every row of every reader should arrive in the merged stream, and the stream
  should be closed once all readers are drained.  In the program the forwarders range
  over the nil elements of \<^verbatim>\<open>lines\<close>, because \<^verbatim>\<open>readFiles\<close> makes its channel in its own copy
  of the argument.  So with a pool of at least one reader, in every state the pipeline
  can reach, the merged stream has delivered no row and is not closed: \<^verbatim>\<open>sortContent\<close>
  waits for ever, and nothing is sorted or emitted.
\<close>

theorem merged_stream_never_fed:
  assumes "0 < n" and "rtranclp (step files) (fileReadinStage fnames n) s"
  shows "merged s = [] \<and> \<not> merged_closed s"
proof -
  from assms(2) have "stuck n s"
  proof (induction rule: rtranclp_induct)
    case base
    show ?case by (rule fileReadinStage_stuck)
  next
    case (step y z)
    from step_stuck[OF step.hyps(2) step.IH assms(1)] show ?case .
  qed
  then show ?thesis by (simp add: stuck_def)
qed

theorem merged_stream_never_fed_witness:
  "(0::nat) < 3 \<and>
   rtranclp (step two_row_files) (fileReadinStage [''f1'', ''f2'', ''f3''] 3) scenario_D_blocked \<and>
   merged scenario_D_blocked = [] \<and> \<not> merged_closed scenario_D_blocked"
proof -
  have pos: "(0::nat) < 3" by simp
  have reach: "rtranclp (step two_row_files) (fileReadinStage [''f1'', ''f2'', ''f3''] 3)
      scenario_D_blocked"
    using scenario_D_reaches_blocked by (simp add: scenario_D_def)
  from merged_stream_never_fed[OF pos reach] pos reach show ?thesis by (intro conjI) simp_all
qed

end
